theory Spec2Isabelle
  imports Main
begin

section \<open>The KiCAD MCP server's command broker\<close>

text \<open>
  The class \<open>KiCADMcpServer\<close> bridges concurrent callers to one Python child process.
  Its broker is the private method \<open>callKicadScript\<close> together with
  \<open>handlePythonResponse\<close>, \<open>tryParseResponse\<close>, \<open>processNextRequest\<close>, \<open>stop\<close> and the
  exit listener installed by \<open>start\<close>. The class runs on Node's single-threaded event loop:
  each of these methods runs to completion, and the methods interleave only between
  events. The model is a state record and one function per method; an event of the loop
  is a value of the datatype \<open>event\<close>.
\<close>

subsection \<open>Values\<close>

text \<open>
  What \<open>JSON.parse\<close> returns. The number type is left open (\<open>'n\<close>): the broker never
  computes with a number.
\<close>

datatype 'n json =
    JNull
  | JBool bool
  | JNumber 'n
  | JString string
  | JArray "'n json list"
  | JObject "(string \<times> 'n json) list"

text \<open>
  The values a caller's promise is rejected with:
  \<^item> \<open>NotRunningError\<close> is \<^verbatim>\<open>new Error("Python process for KiCAD scripting is not running")\<close>;
  \<^item> \<open>CommandTimeoutError d c\<close> is
    \<^verbatim>\<open>new Error(`Command timeout after ${d/1000}s: ${c}`)\<close>, with \<open>d\<close> the duration in
    milliseconds and \<open>c\<close> the command;
  \<^item> \<open>Thrown x\<close> is the exception \<open>x\<close> caught by the \<^verbatim>\<open>catch\<close> of \<open>processNextRequest\<close>.
\<close>

datatype 'x rejection = NotRunningError | CommandTimeoutError nat string | Thrown 'x

datatype ('n, 'x) outcome = Resolved "'n json" | Rejected "'x rejection"

text \<open>The object \<^verbatim>\<open>{ command, params, timeout: commandTimeout }\<close>; \<open>params\<close> has type \<^verbatim>\<open>any\<close>.\<close>

record 'p request =
  command :: string
  params :: 'p
  timeout :: nat

text \<open>
  A promise is named by a number, given out in the order the promises are created. The pair
  \<open>resolve\<close>, \<open>reject\<close> of a queue entry or of the current handler belongs to one promise and
  is represented by that promise's number.
\<close>

record 'p queue_entry =
  request :: "'p request"
  promise :: nat

record handler =
  hpromise :: nat
  timeoutHandle :: nat

text \<open>
  The two callbacks the class passes to \<open>setTimeout\<close>:
  \<open>Drain\<close> is \<^verbatim>\<open>() => this.processNextRequest()\<close> (delay 0);
  \<open>Deadline p d c\<close> is the timeout callback of \<open>processNextRequest\<close>, closed over the
  \<open>reject\<close> of promise \<open>p\<close>, \<open>timeoutDuration = d\<close> and \<open>request.command = c\<close>.
\<close>

datatype timer_callback = Drain | Deadline nat nat string

subsection \<open>State\<close>

text \<open>
  The first five fields are the fields of the class. The others are the part of the
  environment that the methods act on: the timers of the event loop that are armed and have
  not fired (\<open>timers\<close>, by handle), the next handle and the next promise number, the promises
  settled so far with their outcomes in the order they were settled (\<open>settled\<close>), the lines
  written to a child's stdin (\<open>stdinWritten\<close>, with the child they went to) and the
  children that were sent \<open>kill()\<close>.
\<close>

record ('p, 'n, 'x) server =
  pythonProcess :: "nat option"
  requestQueue :: "'p queue_entry list"
  processingRequest :: bool
  responseBuffer :: string
  currentRequestHandler :: "handler option"
  timers :: "(nat \<times> timer_callback) list"
  nextTimer :: nat
  nextPromise :: nat
  settled :: "(nat \<times> ('n, 'x) outcome) list"
  stdinWritten :: "(nat \<times> string) list"
  killed :: "nat list"

text \<open>The state the constructor leaves: the field initialisers of the class.\<close>

definition constructed :: "('p, 'n, 'x) server" where
  "constructed =
     \<lparr> pythonProcess = None, requestQueue = [], processingRequest = False,
       responseBuffer = [], currentRequestHandler = None,
       timers = [], nextTimer = 0, nextPromise = 0, settled = [], stdinWritten = [],
       killed = [] \<rparr>"

subsection \<open>The runtime: promises, timers, the child's stdin\<close>

text \<open>
  Calling \<open>resolve\<close> or \<open>reject\<close> of a promise that is settled already does nothing.
\<close>

definition settle ::
  "nat \<Rightarrow> ('n, 'x) outcome \<Rightarrow> ('p, 'n, 'x) server \<Rightarrow> ('p, 'n, 'x) server" where
  "settle p out s =
     (if p \<in> fst ` set (settled s) then s else s\<lparr>settled := settled s @ [(p, out)]\<rparr>)"

definition setTimeout ::
  "timer_callback \<Rightarrow> ('p, 'n, 'x) server \<Rightarrow> nat \<times> ('p, 'n, 'x) server" where
  "setTimeout cb s =
     (nextTimer s, s\<lparr>timers := timers s @ [(nextTimer s, cb)], nextTimer := Suc (nextTimer s)\<rparr>)"

definition clearTimeout :: "nat \<Rightarrow> ('p, 'n, 'x) server \<Rightarrow> ('p, 'n, 'x) server" where
  "clearTimeout h s = s\<lparr>timers := filter (\<lambda>t. fst t \<noteq> h) (timers s)\<rparr>"

text \<open>
  \<^verbatim>\<open>this.pythonProcess?.stdin?.write(line)\<close>: with no process handle the optional chain
  evaluates to \<open>undefined\<close> and nothing is written. The child is spawned with a piped
  stdin, and \<open>write\<close> of a string reports a failure through the stream's error event, not
  by throwing.
\<close>

definition stdinWrite :: "string \<Rightarrow> ('p, 'n, 'x) server \<Rightarrow> ('p, 'n, 'x) server" where
  "stdinWrite line s =
     (case pythonProcess s of
        None \<Rightarrow> s
      | Some pid \<Rightarrow> s\<lparr>stdinWritten := stdinWritten s @ [(pid, line)]\<rparr>)"

text \<open>
  \<open>String.prototype.trim\<close> on a string of characters below 256: the white space and line
  terminators of ECMAScript in that range.
\<close>

definition isWhiteSpace :: "char \<Rightarrow> bool" where
  "isWhiteSpace c =
     (c \<in> set [CHR 0x09, CHR 0x0A, CHR 0x0B, CHR 0x0C, CHR 0x0D, CHR 0x20, CHR 0xA0])"

definition trim :: "string \<Rightarrow> string" where
  "trim str = rev (dropWhile isWhiteSpace (rev (dropWhile isWhiteSpace str)))"

subsection \<open>The methods\<close>

definition longRunningCommands :: "string list" where
  "longRunningCommands = [''run_drc'', ''export_gerber'', ''export_pdf'', ''export_3d'']"

text \<open>The value of \<open>commandTimeout\<close> when \<open>callKicadScript\<close> builds the request.\<close>

definition commandTimeout :: "string \<Rightarrow> nat" where
  "commandTimeout cmd = (if cmd \<in> set longRunningCommands then 600000 else 30000)"

text \<open>
  \<open>processNextRequest\<close>. \<open>JSON.stringify\<close> is a parameter: it returns the text or throws
  (\<open>Inl\<close>), and a throw is caught by the method's \<^verbatim>\<open>catch\<close>. The statements before it in
  the \<^verbatim>\<open>try\<close> only log.
\<close>

definition processNextRequest ::
  "('p request \<Rightarrow> 'x + string) \<Rightarrow> ('p, 'n, 'x) server \<Rightarrow> ('p, 'n, 'x) server" where
  "processNextRequest stringify s =
     (case requestQueue s of
        [] \<Rightarrow> s
      | e # rest \<Rightarrow>
          if processingRequest s then s
          else
            let s1 = s\<lparr>processingRequest := True, requestQueue := rest\<rparr> in
            (case stringify (request e) of
               Inr requestStr \<Rightarrow>
                 let s2 = s1\<lparr>responseBuffer := []\<rparr>;
                     timeoutDuration =
                       (if timeout (request e) = 0 then 30000 else timeout (request e));
                     (h, s3) =
                       setTimeout (Deadline (promise e) timeoutDuration (command (request e))) s2;
                     s4 = s3\<lparr>currentRequestHandler :=
                               Some \<lparr>hpromise = promise e, timeoutHandle = h\<rparr>\<rparr>
                 in stdinWrite (requestStr @ [CHR 0x0A]) s4
             | Inl error \<Rightarrow>
                 let s2 = s1\<lparr>processingRequest := False, currentRequestHandler := None\<rparr>;
                     (h, s3) = setTimeout Drain s2
                 in settle (promise e) (Rejected (Thrown error)) s3))"

text \<open>
  \<open>callKicadScript\<close> returns the new promise; its executor runs synchronously.
\<close>

definition callKicadScript ::
  "('p request \<Rightarrow> 'x + string) \<Rightarrow> string \<Rightarrow> 'p \<Rightarrow> ('p, 'n, 'x) server
     \<Rightarrow> nat \<times> ('p, 'n, 'x) server" where
  "callKicadScript stringify cmd ps s =
     (let p = nextPromise s;
          s0 = s\<lparr>nextPromise := Suc p\<rparr>
      in case pythonProcess s0 of
           None \<Rightarrow> (p, settle p (Rejected NotRunningError) s0)
         | Some pid \<Rightarrow>
             let s1 = s0\<lparr>requestQueue := requestQueue s0 @
                          [\<lparr>request = \<lparr>command = cmd, params = ps, timeout = commandTimeout cmd\<rparr>,
                            promise = p\<rparr>]\<rparr>
             in if \<not> processingRequest s1 then (p, processNextRequest stringify s1)
                else (p, s1))"

text \<open>
  \<open>tryParseResponse\<close>. \<open>JSON.parse\<close> is a parameter; \<open>None\<close> is a throw, caught by the
  \<^verbatim>\<open>catch\<close>. When the parsed value is \<open>null\<close>, the argument \<^verbatim>\<open>result.success\<close> of the log
  call throws a \<open>TypeError\<close>, caught by the same \<^verbatim>\<open>catch\<close>. A timer handle of Node is an
  object, so the test \<^verbatim>\<open>if (this.currentRequestHandler.timeoutHandle)\<close> succeeds.
\<close>

definition tryParseResponse ::
  "(string \<Rightarrow> 'n json option) \<Rightarrow> ('p, 'n, 'x) server \<Rightarrow> ('p, 'n, 'x) server" where
  "tryParseResponse parse s =
     (case currentRequestHandler s of
        None \<Rightarrow> if trim (responseBuffer s) \<noteq> [] then s\<lparr>responseBuffer := []\<rparr> else s
      | Some cur \<Rightarrow>
          (case parse (responseBuffer s) of
             None \<Rightarrow> s
           | Some JNull \<Rightarrow> s
           | Some result \<Rightarrow>
               let s1 = clearTimeout (timeoutHandle cur) s;
                   s2 = s1\<lparr>responseBuffer := [], currentRequestHandler := None,
                           processingRequest := False\<rparr>;
                   s3 = settle (hpromise cur) (Resolved result) s2;
                   (h, s4) = setTimeout Drain s3
               in s4))"

text \<open>\<open>handlePythonResponse\<close>; the chunk is \<^verbatim>\<open>data.toString()\<close>.\<close>

definition handlePythonResponse ::
  "(string \<Rightarrow> 'n json option) \<Rightarrow> string \<Rightarrow> ('p, 'n, 'x) server \<Rightarrow> ('p, 'n, 'x) server" where
  "handlePythonResponse parse chunk s =
     tryParseResponse parse (s\<lparr>responseBuffer := responseBuffer s @ chunk\<rparr>)"

text \<open>The timeout callback that \<open>processNextRequest\<close> arms.\<close>

definition onTimeout ::
  "nat \<Rightarrow> nat \<Rightarrow> string \<Rightarrow> ('p, 'n, 'x) server \<Rightarrow> ('p, 'n, 'x) server" where
  "onTimeout p timeoutDuration cmd s =
     (let s1 = s\<lparr>responseBuffer := [], currentRequestHandler := None,
                 processingRequest := False\<rparr>;
          s2 = settle p (Rejected (CommandTimeoutError timeoutDuration cmd)) s1;
          (h, s3) = setTimeout Drain s2
      in s3)"

text \<open>
  The event loop fires an armed timer: the timer leaves the loop and its callback runs.
  A handle that is not armed fires nothing.
\<close>

definition fireTimer ::
  "('p request \<Rightarrow> 'x + string) \<Rightarrow> nat \<Rightarrow> ('p, 'n, 'x) server \<Rightarrow> ('p, 'n, 'x) server" where
  "fireTimer stringify h s =
     (case map_of (timers s) h of
        None \<Rightarrow> s
      | Some cb \<Rightarrow>
          let s1 = s\<lparr>timers := filter (\<lambda>t. fst t \<noteq> h) (timers s)\<rparr> in
          (case cb of
             Drain \<Rightarrow> processNextRequest stringify s1
           | Deadline p d c \<Rightarrow> onTimeout p d c s1))"

text \<open>\<open>start\<close> as far as the broker sees it: the spawned child becomes the process handle.\<close>

definition start :: "nat \<Rightarrow> ('p, 'n, 'x) server \<Rightarrow> ('p, 'n, 'x) server" where
  "start pid s = s\<lparr>pythonProcess := Some pid\<rparr>"

text \<open>The listener of the child's \<open>exit\<close> event.\<close>

definition onExit :: "('p, 'n, 'x) server \<Rightarrow> ('p, 'n, 'x) server" where
  "onExit s = s\<lparr>pythonProcess := None\<rparr>"

definition stop :: "('p, 'n, 'x) server \<Rightarrow> ('p, 'n, 'x) server" where
  "stop s =
     (case pythonProcess s of
        None \<Rightarrow> s
      | Some pid \<Rightarrow> s\<lparr>killed := killed s @ [pid], pythonProcess := None\<rparr>)"

subsection \<open>Events and runs\<close>

datatype 'p event =
    Submit string 'p
  | Data string
  | Fire nat
  | Spawn nat
  | Exit
  | Stop

record ('p, 'n, 'x) builtins =
  stringify :: "'p request \<Rightarrow> 'x + string"
  parse :: "string \<Rightarrow> 'n json option"

fun step ::
  "('p, 'n, 'x) builtins \<Rightarrow> 'p event \<Rightarrow> ('p, 'n, 'x) server \<Rightarrow> ('p, 'n, 'x) server" where
  "step js (Submit cmd ps) s = snd (callKicadScript (stringify js) cmd ps s)"
| "step js (Data chunk) s = handlePythonResponse (parse js) chunk s"
| "step js (Fire h) s = fireTimer (stringify js) h s"
| "step js (Spawn pid) s = start pid s"
| "step js Exit s = onExit s"
| "step js Stop s = stop s"

definition run ::
  "('p, 'n, 'x) builtins \<Rightarrow> 'p event list \<Rightarrow> ('p, 'n, 'x) server \<Rightarrow> ('p, 'n, 'x) server" where
  "run js evs s = foldl (\<lambda>t e. step js e t) s evs"

subsection \<open>Invariants of the broker\<close>

text \<open>
  The promises the broker knows, in the order settled, then pending, then queued.
\<close>

definition pendingIds :: "('p, 'n, 'x) server \<Rightarrow> nat list" where
  "pendingIds s = (case currentRequestHandler s of None \<Rightarrow> [] | Some cur \<Rightarrow> [hpromise cur])"

definition promiseIds :: "('p, 'n, 'x) server \<Rightarrow> nat list" where
  "promiseIds s = map fst (settled s) @ pendingIds s @ map promise (requestQueue s)"

text \<open>
  \<open>inv_busy\<close>: the busy flag is set exactly when there is a current handler.
  \<open>inv_timers\<close>: timer handles are distinct and were given out already; the only deadline
  timer that is armed is the one of the current handler, and that one is armed.
  \<open>inv_promises\<close>: no promise occurs twice among the settled, pending and queued ones, and
  all of them were created already.
\<close>

definition inv_busy :: "('p, 'n, 'x) server \<Rightarrow> bool" where
  "inv_busy s = (processingRequest s \<longleftrightarrow> currentRequestHandler s \<noteq> None)"

definition inv_timers :: "('p, 'n, 'x) server \<Rightarrow> bool" where
  "inv_timers s =
     (distinct (map fst (timers s)) \<and>
      (\<forall>t \<in> set (timers s). fst t < nextTimer s) \<and>
      (\<forall>h p d c. (h, Deadline p d c) \<in> set (timers s) \<longrightarrow>
                 currentRequestHandler s = Some \<lparr>hpromise = p, timeoutHandle = h\<rparr>) \<and>
      (\<forall>cur. currentRequestHandler s = Some cur \<longrightarrow>
             (\<exists>d c. (timeoutHandle cur, Deadline (hpromise cur) d c) \<in> set (timers s))))"

definition inv_promises :: "('p, 'n, 'x) server \<Rightarrow> bool" where
  "inv_promises s = (distinct (promiseIds s) \<and> (\<forall>p \<in> set (promiseIds s). p < nextPromise s))"

definition broker_inv :: "('p, 'n, 'x) server \<Rightarrow> bool" where
  "broker_inv s = (inv_busy s \<and> inv_timers s \<and> inv_promises s)"

subsection \<open>What each method does to the state, case by case\<close>

text \<open>
  \<open>sent\<close> is the state after \<open>processNextRequest\<close> has dispatched the entry \<open>e\<close>;
  \<open>finished\<close> is the state after a promise was settled, the busy flag and the handler were
  reset and the next drain was scheduled. The lemmas below derive both from the methods.
\<close>

definition sent ::
  "'p queue_entry \<Rightarrow> 'p queue_entry list \<Rightarrow> string \<Rightarrow> ('p, 'n, 'x) server \<Rightarrow> ('p, 'n, 'x) server" where
  "sent e rest str s =
     s\<lparr>requestQueue := rest, processingRequest := True, responseBuffer := [],
       currentRequestHandler := Some \<lparr>hpromise = promise e, timeoutHandle = nextTimer s\<rparr>,
       timers := timers s @ [(nextTimer s, Deadline (promise e)
              (if timeout (request e) = 0 then 30000 else timeout (request e)) (command (request e)))],
       nextTimer := Suc (nextTimer s),
       stdinWritten := stdinWritten s @
          (case pythonProcess s of None \<Rightarrow> [] | Some pid \<Rightarrow> [(pid, str @ [CHR 0x0A])])\<rparr>"

definition finished ::
  "nat \<Rightarrow> ('n, 'x) outcome \<Rightarrow> ('p, 'n, 'x) server \<Rightarrow> ('p, 'n, 'x) server" where
  "finished p out s =
     s\<lparr>processingRequest := False, currentRequestHandler := None,
       timers := timers s @ [(nextTimer s, Drain)], nextTimer := Suc (nextTimer s),
       settled := settled s @ (if p \<in> fst ` set (settled s) then [] else [(p, out)])\<rparr>"

text \<open>
  \<open>inv_timeouts\<close>: every queued request and every armed deadline carries the timeout that
  \<open>callKicadScript\<close> computes from the command.
\<close>

definition inv_timeouts :: "('p, 'n, 'x) server \<Rightarrow> bool" where
  "inv_timeouts s =
     ((\<forall>e \<in> set (requestQueue s). timeout (request e) = commandTimeout (command (request e))) \<and>
      (\<forall>h p d c. (h, Deadline p d c) \<in> set (timers s) \<longrightarrow> d = commandTimeout c))"

text \<open>The chunks of one response, delivered by \<open>handlePythonResponse\<close> one after the other.\<close>

definition feed ::
  "(string \<Rightarrow> 'n json option) \<Rightarrow> string list \<Rightarrow> ('p, 'n, 'x) server \<Rightarrow> ('p, 'n, 'x) server" where
  "feed prs chunks s = foldl (\<lambda>t chunk. handlePythonResponse prs chunk t) s chunks"

text \<open>
  Builtins for the concrete runs below: \<open>stringify\<close> throws on the parameter \<open>False\<close> and
  returns the command otherwise; \<open>parse\<close> knows the empty object, written \<^verbatim>\<open>{}\<close> or
  \<^verbatim>\<open>{ }\<close>, and \<^verbatim>\<open>null\<close>.
\<close>

definition example_js :: "(bool, nat, unit) builtins" where
  "example_js =
     \<lparr> stringify = (\<lambda>r. if params r then Inr (command r) else Inl ()),
       parse = (\<lambda>b. if b = ''{}'' \<or> b = ''{ }'' then Some (JObject [])
                     else if b = ''null'' then Some JNull else None) \<rparr>"

text \<open>
  The events under which the child stays as it is: calls of \<open>callKicadScript\<close>, chunks of
  stdout and timers. \<open>inv_written\<close>: a line is written to a child only for a request that is
  settled or pending.
\<close>

fun keepsChild :: "'p event \<Rightarrow> bool" where
  "keepsChild (Submit cmd ps) = True"
| "keepsChild (Data chunk) = True"
| "keepsChild (Fire h) = True"
| "keepsChild (Spawn pid) = False"
| "keepsChild Exit = False"
| "keepsChild Stop = False"

fun isSubmit :: "'p event \<Rightarrow> bool" where
  "isSubmit (Submit cmd ps) = True"
| "isSubmit (Data chunk) = False"
| "isSubmit (Fire h) = False"
| "isSubmit (Spawn pid) = False"
| "isSubmit Exit = False"
| "isSubmit Stop = False"

definition inv_written :: "('p, 'n, 'x) server \<Rightarrow> bool" where
  "inv_written s = (length (stdinWritten s) \<le> length (settled s) + length (pendingIds s))"

text \<open>
  A child that answers each request at once: after the calls, the child's response to the
  pending call arrives (\<open>Data doc\<close>) and the drain it schedules runs, once for each request.
  The deadline of the pending call has the handle \<open>h\<close>, so that drain has the handle
  \<open>Suc h\<close> and the deadline of the next call \<open>h + 2\<close>.
\<close>

fun echoRounds :: "nat \<Rightarrow> nat \<Rightarrow> string \<Rightarrow> 'p event list" where
  "echoRounds h 0 doc = []"
| "echoRounds h (Suc n) doc = Data doc # Fire (Suc h) # echoRounds (h + 2) n doc"

definition echoSchedule :: "(string \<times> 'p) list \<Rightarrow> string \<Rightarrow> 'p event list" where
  "echoSchedule reqs doc =
     map (\<lambda>(cmd, ps). Submit cmd ps) reqs @ echoRounds 0 (length reqs) doc"

text \<open>The queue entries that calls for \<open>reqs\<close> append, the first with promise \<open>n\<close>.\<close>

fun entriesFrom :: "nat \<Rightarrow> (string \<times> 'p) list \<Rightarrow> 'p queue_entry list" where
  "entriesFrom n [] = []"
| "entriesFrom n ((cmd, ps) # reqs) =
     \<lparr>request = \<lparr>command = cmd, params = ps, timeout = commandTimeout cmd\<rparr>, promise = n\<rparr>
       # entriesFrom (Suc n) reqs"

lemma broker_inv_constructed: "broker_inv constructed"
  by (simp add: broker_inv_def inv_busy_def inv_timers_def inv_promises_def promiseIds_def
      pendingIds_def constructed_def)

lemma processNextRequest_cases:
  "processNextRequest f s =
     (case requestQueue s of [] \<Rightarrow> s
      | e # rest \<Rightarrow>
         (if processingRequest s then s
          else (case f (request e) of Inr str \<Rightarrow> sent e rest str s
           | Inl x \<Rightarrow> finished (promise e) (Rejected (Thrown x)) (s\<lparr>requestQueue := rest\<rparr>))))"
  by (cases s)
     (simp add: processNextRequest_def sent_def finished_def setTimeout_def settle_def
        stdinWrite_def Let_def split: list.splits sum.splits option.splits)

lemma tryParseResponse_cases:
  "tryParseResponse prs s =
     (case currentRequestHandler s of
        None \<Rightarrow> (if trim (responseBuffer s) \<noteq> [] then s\<lparr>responseBuffer := []\<rparr> else s)
      | Some cur \<Rightarrow>
          (case prs (responseBuffer s) of None \<Rightarrow> s | Some JNull \<Rightarrow> s
           | Some result \<Rightarrow>
              finished (hpromise cur) (Resolved result)
                (s\<lparr>responseBuffer := [], timers := filter (\<lambda>t. fst t \<noteq> timeoutHandle cur) (timers s)\<rparr>)))"
  by (cases s)
     (simp add: tryParseResponse_def finished_def setTimeout_def settle_def clearTimeout_def
        Let_def split: option.splits json.splits)

lemma onTimeout_cases:
  "onTimeout p d c s = finished p (Rejected (CommandTimeoutError d c)) (s\<lparr>responseBuffer := []\<rparr>)"
  by (cases s) (simp add: onTimeout_def finished_def setTimeout_def settle_def Let_def)

subsection \<open>The invariants are kept\<close>


lemma inv_busy_sent: "inv_busy (sent e rest str s)"
  by (simp add: inv_busy_def sent_def)

lemma inv_busy_finished: "inv_busy (finished p out s)"
  by (simp add: inv_busy_def finished_def)

lemma inv_timers_sent:
  "inv_timers s \<Longrightarrow> currentRequestHandler s = None \<Longrightarrow> inv_timers (sent e rest str s)"
  unfolding inv_timers_def sent_def by auto

lemma inv_timers_finished:
  "inv_timers s \<Longrightarrow> currentRequestHandler s = None \<Longrightarrow> inv_timers (finished p out s)"
  unfolding inv_timers_def finished_def by auto

text \<open>Disarming or firing the deadline timer of the current handler leaves no deadline armed.\<close>

lemma inv_timers_disarm:
  assumes "inv_timers s" and "currentRequestHandler s = Some cur"
  shows "inv_timers (s\<lparr>currentRequestHandler := None,
            timers := filter (\<lambda>t. fst t \<noteq> timeoutHandle cur) (timers s)\<rparr>)"
  using assms unfolding inv_timers_def by (auto simp: distinct_map_filter)

text \<open>Firing a drain timer leaves the deadline timer armed.\<close>

lemma inv_timers_fire_drain:
  assumes "inv_timers s" and "(h, Drain) \<in> set (timers s)"
  shows "inv_timers (s\<lparr>timers := filter (\<lambda>t. fst t \<noteq> h) (timers s)\<rparr>)"
proof -
  let ?ts = "filter (\<lambda>t. fst t \<noteq> h) (timers s)"
  have dist: "distinct (map fst (timers s))"
    using assms(1) by (simp add: inv_timers_def)
  have other: "h' \<noteq> h" if "(h', Deadline p d c) \<in> set (timers s)" for h' p d c
    using eq_key_imp_eq_value [OF dist assms(2)] that by auto
  have 1: "distinct (map fst ?ts)"
    using dist by (rule distinct_map_filter)
  have 2: "\<forall>t \<in> set ?ts. fst t < nextTimer s"
    using assms(1) by (simp add: inv_timers_def)
  have 3: "\<forall>h' p d c. (h', Deadline p d c) \<in> set ?ts \<longrightarrow>
             currentRequestHandler s = Some \<lparr>hpromise = p, timeoutHandle = h'\<rparr>"
    using assms(1) by (simp add: inv_timers_def)
  have 4: "\<exists>d c. (timeoutHandle cur, Deadline (hpromise cur) d c) \<in> set ?ts"
    if "currentRequestHandler s = Some cur" for cur
  proof -
    from assms(1) that obtain d c
      where mem: "(timeoutHandle cur, Deadline (hpromise cur) d c) \<in> set (timers s)"
      unfolding inv_timers_def by blast
    with other have "timeoutHandle cur \<noteq> h" by blast
    with mem show ?thesis by auto
  qed
  show ?thesis
    unfolding inv_timers_def using 1 2 3 4 by simp
qed

lemma promiseIds_sent:
  "currentRequestHandler s = None \<Longrightarrow> requestQueue s = e # rest \<Longrightarrow>
   promiseIds (sent e rest str s) = promiseIds s"
  by (simp add: promiseIds_def pendingIds_def sent_def)

lemma promiseIds_finished_queue:
  "currentRequestHandler s = None \<Longrightarrow> requestQueue s = e # rest \<Longrightarrow>
   promise e \<notin> fst ` set (settled s) \<Longrightarrow>
   promiseIds (finished (promise e) out (s\<lparr>requestQueue := rest\<rparr>)) = promiseIds s"
  by (simp add: promiseIds_def pendingIds_def finished_def)

lemma promiseIds_finished_pending:
  "currentRequestHandler s = Some cur \<Longrightarrow> hpromise cur \<notin> fst ` set (settled s) \<Longrightarrow>
   promiseIds (finished (hpromise cur) out s) = promiseIds s"
  by (simp add: promiseIds_def pendingIds_def finished_def)

lemma inv_promises_cong:
  "promiseIds t = promiseIds s \<Longrightarrow> nextPromise t = nextPromise s \<Longrightarrow>
   inv_promises s \<Longrightarrow> inv_promises t"
  by (simp add: inv_promises_def)

lemma pending_unsettled:
  "inv_promises s \<Longrightarrow> currentRequestHandler s = Some cur \<Longrightarrow>
   hpromise cur \<notin> fst ` set (settled s)"
  by (auto simp: inv_promises_def promiseIds_def pendingIds_def)

lemma queued_unsettled:
  "inv_promises s \<Longrightarrow> requestQueue s = e # rest \<Longrightarrow> promise e \<notin> fst ` set (settled s)"
  by (auto simp: inv_promises_def promiseIds_def pendingIds_def)


lemma inv_timers_cong:
  "timers t = timers s \<Longrightarrow> nextTimer t = nextTimer s \<Longrightarrow>
   currentRequestHandler t = currentRequestHandler s \<Longrightarrow> inv_timers s \<Longrightarrow> inv_timers t"
  by (simp add: inv_timers_def)

lemma inv_timers_finished_pending:
  assumes "inv_timers s" and "currentRequestHandler s = Some cur"
  shows "inv_timers (finished p out
           (s\<lparr>responseBuffer := [],
              timers := filter (\<lambda>t. fst t \<noteq> timeoutHandle cur) (timers s)\<rparr>))"
proof -
  let ?s1 = "s\<lparr>currentRequestHandler := None,
               timers := filter (\<lambda>t. fst t \<noteq> timeoutHandle cur) (timers s)\<rparr>"
  have "inv_timers ?s1" using assms by (rule inv_timers_disarm)
  then have "inv_timers (finished p out ?s1)"
    by (rule inv_timers_finished) simp
  then show ?thesis
    by (rule inv_timers_cong [rotated 3]) (simp_all add: finished_def)
qed

lemma broker_inv_processNextRequest:
  assumes "broker_inv s"
  shows "broker_inv (processNextRequest f s) \<and>
         promiseIds (processNextRequest f s) = promiseIds s \<and>
         nextPromise (processNextRequest f s) = nextPromise s"
proof (cases "requestQueue s")
  case Nil
  then show ?thesis using assms by (simp add: processNextRequest_cases)
next
  case (Cons e rest)
  show ?thesis
  proof (cases "processingRequest s")
    case True
    then show ?thesis using assms Cons by (simp add: processNextRequest_cases)
  next
    case False
    with assms have idle: "currentRequestHandler s = None"
      by (simp add: broker_inv_def inv_busy_def)
    from assms have ts: "inv_timers s" and ps: "inv_promises s"
      by (simp_all add: broker_inv_def)
    show ?thesis
    proof (cases "f (request e)")
      case (Inl x)
      let ?t = "finished (promise e) (Rejected (Thrown x)) (s\<lparr>requestQueue := rest\<rparr>)"
      have eq: "processNextRequest f s = ?t"
        using Cons False Inl by (simp add: processNextRequest_cases)
      have ids: "promiseIds ?t = promiseIds s"
        using idle Cons queued_unsettled [OF ps Cons] by (rule promiseIds_finished_queue)
      have np: "nextPromise ?t = nextPromise s" by (simp add: finished_def)
      have "inv_timers (s\<lparr>requestQueue := rest\<rparr>)"
        using ts by (rule inv_timers_cong [rotated 3]) simp_all
      then have "inv_timers ?t"
        by (rule inv_timers_finished) (simp add: idle)
      moreover have "inv_promises ?t" using ids np ps by (rule inv_promises_cong)
      ultimately show ?thesis
        using ids np by (simp add: eq broker_inv_def inv_busy_finished)
    next
      case (Inr str)
      let ?t = "sent e rest str s"
      have eq: "processNextRequest f s = ?t"
        using Cons False Inr by (simp add: processNextRequest_cases)
      have ids: "promiseIds ?t = promiseIds s"
        using idle Cons by (rule promiseIds_sent)
      have np: "nextPromise ?t = nextPromise s" by (simp add: sent_def)
      have "inv_timers ?t" using ts idle by (rule inv_timers_sent)
      moreover have "inv_promises ?t" using ids np ps by (rule inv_promises_cong)
      ultimately show ?thesis
        using ids np by (simp add: eq broker_inv_def inv_busy_sent)
    qed
  qed
qed

lemma broker_inv_buffer: "broker_inv (s\<lparr>responseBuffer := b\<rparr>) = broker_inv s"
  by (simp add: broker_inv_def inv_busy_def inv_timers_def inv_promises_def promiseIds_def
      pendingIds_def)

lemma promiseIds_buffer: "promiseIds (s\<lparr>responseBuffer := b\<rparr>) = promiseIds s"
  by (simp add: promiseIds_def pendingIds_def)

lemma broker_inv_tryParseResponse:
  assumes "broker_inv s"
  shows "broker_inv (tryParseResponse prs s) \<and>
         promiseIds (tryParseResponse prs s) = promiseIds s \<and>
         nextPromise (tryParseResponse prs s) = nextPromise s"
proof (cases "currentRequestHandler s")
  case None
  then show ?thesis using assms
    by (simp add: tryParseResponse_cases broker_inv_buffer promiseIds_buffer)
next
  case (Some cur)
  show ?thesis
  proof (cases "\<exists>v. prs (responseBuffer s) = Some v \<and> v \<noteq> JNull")
    case False
    then have "tryParseResponse prs s = s"
      using Some by (auto simp: tryParseResponse_cases split: option.splits json.splits)
    then show ?thesis using assms by simp
  next
    case True
    then obtain v where v: "prs (responseBuffer s) = Some v" "v \<noteq> JNull" by blast
    let ?s1 = "s\<lparr>responseBuffer := [],
                 timers := filter (\<lambda>t. fst t \<noteq> timeoutHandle cur) (timers s)\<rparr>"
    let ?t = "finished (hpromise cur) (Resolved v) ?s1"
    have eq: "tryParseResponse prs s = ?t"
      using Some v by (simp add: tryParseResponse_cases split: json.splits)
    from assms have ts: "inv_timers s" and ps: "inv_promises s"
      by (simp_all add: broker_inv_def)
    have fresh: "hpromise cur \<notin> fst ` set (settled s)"
      using ps Some by (rule pending_unsettled)
    have ids: "promiseIds ?t = promiseIds s"
      using Some fresh by (simp add: promiseIds_def pendingIds_def finished_def)
    have np: "nextPromise ?t = nextPromise s" by (simp add: finished_def)
    have "inv_timers ?t" using ts Some by (rule inv_timers_finished_pending)
    moreover have "inv_promises ?t" using ids np ps by (rule inv_promises_cong)
    ultimately show ?thesis
      using ids np by (simp add: eq broker_inv_def inv_busy_finished)
  qed
qed

lemma broker_inv_handlePythonResponse:
  assumes "broker_inv s"
  shows "broker_inv (handlePythonResponse prs chunk s) \<and>
         promiseIds (handlePythonResponse prs chunk s) = promiseIds s \<and>
         nextPromise (handlePythonResponse prs chunk s) = nextPromise s"
proof -
  have "broker_inv (s\<lparr>responseBuffer := responseBuffer s @ chunk\<rparr>)"
    using assms by (simp add: broker_inv_buffer)
  from broker_inv_tryParseResponse [OF this, of prs] show ?thesis
    by (simp add: handlePythonResponse_def promiseIds_buffer)
qed

lemma broker_inv_fireTimer:
  assumes "broker_inv s"
  shows "broker_inv (fireTimer f h s) \<and>
         promiseIds (fireTimer f h s) = promiseIds s \<and>
         nextPromise (fireTimer f h s) = nextPromise s"
proof (cases "map_of (timers s) h")
  case None
  then show ?thesis using assms by (simp add: fireTimer_def)
next
  case (Some cb)
  then have mem: "(h, cb) \<in> set (timers s)" by (rule map_of_SomeD)
  from assms have bs: "inv_busy s" and ts: "inv_timers s" and ps: "inv_promises s"
    by (simp_all add: broker_inv_def)
  let ?s1 = "s\<lparr>timers := filter (\<lambda>t. fst t \<noteq> h) (timers s)\<rparr>"
  show ?thesis
  proof (cases cb)
    case Drain
    have eq: "fireTimer f h s = processNextRequest f ?s1"
      using Some Drain by (simp add: fireTimer_def)
    have "inv_timers ?s1" using ts mem unfolding Drain by (rule inv_timers_fire_drain)
    moreover have "inv_busy ?s1" using bs by (simp add: inv_busy_def)
    moreover have ids: "promiseIds ?s1 = promiseIds s" by (simp add: promiseIds_def pendingIds_def)
    have "inv_promises ?s1"
      using ps by (simp add: inv_promises_def promiseIds_def pendingIds_def)
    ultimately have "broker_inv ?s1" by (simp add: broker_inv_def)
    from broker_inv_processNextRequest [OF this, of f] ids show ?thesis
      by (simp add: eq)
  next
    case (Deadline p d c)
    with mem ts have cur: "currentRequestHandler s = Some \<lparr>hpromise = p, timeoutHandle = h\<rparr>"
      unfolding inv_timers_def by blast
    let ?cur = "\<lparr>hpromise = p, timeoutHandle = h\<rparr>"
    let ?t = "finished p (Rejected (CommandTimeoutError d c))
                (s\<lparr>timers := filter (\<lambda>t. fst t \<noteq> h) (timers s), responseBuffer := []\<rparr>)"
    have eq: "fireTimer f h s = ?t"
      using Some Deadline by (simp add: fireTimer_def onTimeout_cases)
    have fresh: "p \<notin> fst ` set (settled s)"
      using pending_unsettled [OF ps cur] by simp
    have ids: "promiseIds ?t = promiseIds s"
      using cur fresh by (simp add: promiseIds_def pendingIds_def finished_def)
    have np: "nextPromise ?t = nextPromise s" by (simp add: finished_def)
    have "inv_timers ?t"
      by (rule inv_timers_cong [OF _ _ _ inv_timers_finished_pending [OF ts cur]])
         (simp_all add: finished_def)
    moreover have "inv_promises ?t" using ids np ps by (rule inv_promises_cong)
    ultimately show ?thesis
      using ids np by (simp add: eq broker_inv_def inv_busy_finished)
  qed
qed

lemma callKicadScript_cases:
  "callKicadScript f cmd ps s =
     (nextPromise s,
      case pythonProcess s of
        None \<Rightarrow> s\<lparr>nextPromise := Suc (nextPromise s),
                  settled := settled s @
                    (if nextPromise s \<in> fst ` set (settled s) then []
                     else [(nextPromise s, Rejected NotRunningError)])\<rparr>
      | Some pid \<Rightarrow>
          (let s1 = s\<lparr>requestQueue := requestQueue s @
                      [\<lparr>request = \<lparr>command = cmd, params = ps, timeout = commandTimeout cmd\<rparr>,
                        promise = nextPromise s\<rparr>],
                     nextPromise := Suc (nextPromise s)\<rparr>
           in if processingRequest s then s1 else processNextRequest f s1))"
  by (cases s) (simp add: callKicadScript_def settle_def Let_def split: option.splits)

lemma promiseIds_enqueue:
  "promiseIds (s\<lparr>requestQueue := requestQueue s @ [\<lparr>request = r, promise = p\<rparr>],
                 nextPromise := n\<rparr>) = promiseIds s @ [p]"
  by (simp add: promiseIds_def pendingIds_def)

lemma broker_inv_enqueue:
  assumes "broker_inv s"
  shows "broker_inv (s\<lparr>requestQueue := requestQueue s @ [\<lparr>request = r, promise = nextPromise s\<rparr>],
                      nextPromise := Suc (nextPromise s)\<rparr>)"
    (is "broker_inv ?t")
proof -
  from assms have bs: "inv_busy s" and ts: "inv_timers s" and ps: "inv_promises s"
    by (simp_all add: broker_inv_def)
  have "inv_busy ?t" using bs by (simp add: inv_busy_def)
  moreover have "inv_timers ?t"
    using ts by (rule inv_timers_cong [rotated 3]) simp_all
  moreover have "inv_promises ?t"
    using ps unfolding inv_promises_def promiseIds_enqueue
    by (auto simp: less_Suc_eq)
  ultimately show ?thesis by (simp add: broker_inv_def)
qed

lemma broker_inv_callKicadScript:
  assumes "broker_inv s"
  shows "broker_inv (snd (callKicadScript f cmd ps s))"
proof (cases "pythonProcess s")
  case None
  from assms have fresh: "nextPromise s \<notin> fst ` set (settled s)"
    unfolding broker_inv_def inv_promises_def promiseIds_def by auto
  show ?thesis using assms None fresh
    unfolding callKicadScript_cases broker_inv_def inv_busy_def inv_timers_def inv_promises_def
      promiseIds_def pendingIds_def
    by (auto simp: less_Suc_eq split: option.splits)
next
  case (Some pid)
  let ?s1 = "s\<lparr>requestQueue := requestQueue s @
                      [\<lparr>request = \<lparr>command = cmd, params = ps, timeout = commandTimeout cmd\<rparr>,
                        promise = nextPromise s\<rparr>],
                     nextPromise := Suc (nextPromise s)\<rparr>"
  have "broker_inv ?s1" using assms by (rule broker_inv_enqueue)
  then show ?thesis
    using Some broker_inv_processNextRequest [of ?s1 f]
    by (simp add: callKicadScript_cases Let_def)
qed

lemma broker_inv_start: "broker_inv (start pid s) = broker_inv s"
  by (simp add: start_def broker_inv_def inv_busy_def inv_timers_def inv_promises_def promiseIds_def
      pendingIds_def)

lemma broker_inv_onExit: "broker_inv (onExit s) = broker_inv s"
  by (simp add: onExit_def broker_inv_def inv_busy_def inv_timers_def inv_promises_def promiseIds_def
      pendingIds_def)

lemma broker_inv_stop: "broker_inv (stop s) = broker_inv s"
  by (simp add: stop_def broker_inv_def inv_busy_def inv_timers_def inv_promises_def promiseIds_def
      pendingIds_def split: option.splits)

lemma broker_inv_step: "broker_inv s \<Longrightarrow> broker_inv (step js e s)"
  by (cases e)
     (simp_all add: broker_inv_callKicadScript broker_inv_handlePythonResponse broker_inv_fireTimer
        broker_inv_start broker_inv_onExit broker_inv_stop)

lemma broker_inv_run: "broker_inv s \<Longrightarrow> broker_inv (run js evs s)"
  unfolding run_def by (induction evs arbitrary: s) (simp_all add: broker_inv_step)


lemma commandTimeout_pos: "commandTimeout c \<noteq> 0"
  by (simp add: commandTimeout_def)

lemma inv_timeouts_constructed: "inv_timeouts constructed"
  by (simp add: inv_timeouts_def constructed_def)

lemma inv_timeouts_processNextRequest:
  "inv_timeouts s \<Longrightarrow> inv_timeouts (processNextRequest f s)"
  unfolding processNextRequest_cases inv_timeouts_def sent_def finished_def
  by (auto simp: commandTimeout_pos split: list.splits sum.splits)

lemma inv_timeouts_handlePythonResponse:
  "inv_timeouts s \<Longrightarrow> inv_timeouts (handlePythonResponse prs chunk s)"
  unfolding handlePythonResponse_def tryParseResponse_cases inv_timeouts_def finished_def
  by (auto split: option.splits json.splits)

lemma inv_timeouts_onTimeout: "inv_timeouts s \<Longrightarrow> inv_timeouts (onTimeout p d c s)"
  by (auto simp: onTimeout_cases inv_timeouts_def finished_def)

lemma inv_timeouts_fireTimer:
  assumes "inv_timeouts s"
  shows "inv_timeouts (fireTimer f h s)"
proof -
  have "inv_timeouts (s\<lparr>timers := filter (\<lambda>t. fst t \<noteq> h) (timers s)\<rparr>)"
    using assms by (auto simp: inv_timeouts_def)
  then show ?thesis
    using assms
    by (simp add: fireTimer_def Let_def inv_timeouts_processNextRequest inv_timeouts_onTimeout
        split: option.splits timer_callback.splits)
qed

lemma inv_timeouts_callKicadScript:
  assumes "inv_timeouts s"
  shows "inv_timeouts (snd (callKicadScript f cmd ps s))"
proof (cases "pythonProcess s")
  case None
  then show ?thesis using assms by (simp add: callKicadScript_cases inv_timeouts_def)
next
  case (Some pid)
  let ?s1 = "s\<lparr>requestQueue := requestQueue s @
                      [\<lparr>request = \<lparr>command = cmd, params = ps, timeout = commandTimeout cmd\<rparr>,
                        promise = nextPromise s\<rparr>],
                     nextPromise := Suc (nextPromise s)\<rparr>"
  have "inv_timeouts ?s1" using assms by (auto simp: inv_timeouts_def)
  then show ?thesis
    using Some inv_timeouts_processNextRequest [of ?s1 f]
    by (simp add: callKicadScript_cases Let_def)
qed

lemma inv_timeouts_step: "inv_timeouts s \<Longrightarrow> inv_timeouts (step js e s)"
proof (cases e)
  case (Submit cmd ps)
  assume "inv_timeouts s"
  then show ?thesis unfolding Submit by (simp add: inv_timeouts_callKicadScript)
next
  case (Data chunk)
  assume "inv_timeouts s"
  then show ?thesis unfolding Data by (simp add: inv_timeouts_handlePythonResponse)
next
  case (Fire h)
  assume "inv_timeouts s"
  then show ?thesis unfolding Fire by (simp add: inv_timeouts_fireTimer)
next
  case (Spawn pid)
  assume "inv_timeouts s"
  then show ?thesis unfolding Spawn by (simp add: start_def inv_timeouts_def)
next
  case Exit
  assume "inv_timeouts s"
  then show ?thesis unfolding Exit by (simp add: onExit_def inv_timeouts_def)
next
  case Stop
  assume "inv_timeouts s"
  then show ?thesis unfolding Stop by (simp add: stop_def inv_timeouts_def split: option.splits)
qed

lemma inv_timeouts_run: "inv_timeouts s \<Longrightarrow> inv_timeouts (run js evs s)"
  unfolding run_def by (induction evs arbitrary: s) (simp_all add: inv_timeouts_step)

subsection \<open>White space\<close>

lemma trim_empty: "trim str = [] \<longleftrightarrow> (\<forall>c \<in> set str. isWhiteSpace c)"
proof
  assume "trim str = []"
  then have all: "\<forall>c \<in> set (dropWhile isWhiteSpace str). isWhiteSpace c"
    by (simp add: trim_def)
  have "dropWhile isWhiteSpace str = []"
  proof (rule ccontr)
    assume ne: "dropWhile isWhiteSpace str \<noteq> []"
    then have "\<not> isWhiteSpace (hd (dropWhile isWhiteSpace str))"
      by (rule hd_dropWhile)
    moreover have "hd (dropWhile isWhiteSpace str) \<in> set (dropWhile isWhiteSpace str)"
      using ne by (rule hd_in_set)
    ultimately show False using all by blast
  qed
  then show "\<forall>c \<in> set str. isWhiteSpace c" by simp
next
  assume "\<forall>c \<in> set str. isWhiteSpace c"
  then have d: "dropWhile isWhiteSpace str = []" by simp
  show "trim str = []" unfolding trim_def d by simp
qed

lemma trim_nonempty: "trim str \<noteq> [] \<longleftrightarrow> (\<exists>c \<in> set str. \<not> isWhiteSpace c)"
  by (simp add: trim_empty)

subsection \<open>Chunks\<close>

lemma feed_snoc: "feed prs (cs @ [c]) s = handlePythonResponse prs c (feed prs cs s)"
  by (simp add: feed_def)

lemma feed_incomplete:
  assumes "currentRequestHandler s = Some cur"
    and "\<forall>n. 0 < n \<and> n \<le> length cs \<longrightarrow> prs (responseBuffer s @ concat (take n cs)) = None"
  shows "feed prs cs s = s\<lparr>responseBuffer := responseBuffer s @ concat cs\<rparr>"
  using assms(2)
proof (induction cs rule: rev_induct)
  case Nil
  show ?case by (simp add: feed_def)
next
  case (snoc c cs)
  have "\<forall>n. 0 < n \<and> n \<le> length cs \<longrightarrow> prs (responseBuffer s @ concat (take n cs)) = None"
  proof (intro allI impI)
    fix n assume n: "0 < n \<and> n \<le> length cs"
    then have "0 < n \<and> n \<le> length (cs @ [c])" by simp
    with snoc.prems have "prs (responseBuffer s @ concat (take n (cs @ [c]))) = None"
      by blast
    moreover have "take n (cs @ [c]) = take n cs" using n by simp
    ultimately show "prs (responseBuffer s @ concat (take n cs)) = None"
      by simp
  qed
  then have IH: "feed prs cs s = s\<lparr>responseBuffer := responseBuffer s @ concat cs\<rparr>"
    by (rule snoc.IH)
  have "0 < Suc (length cs) \<and> Suc (length cs) \<le> length (cs @ [c])" by simp
  with snoc.prems
  have "prs (responseBuffer s @ concat (take (Suc (length cs)) (cs @ [c]))) = None"
    by blast
  then have fail: "prs (responseBuffer s @ concat cs @ c) = None" by simp
  show ?case
    using assms(1) fail
    by (simp add: feed_snoc IH handlePythonResponse_def tryParseResponse_cases)
qed

lemma concat_last_nonempty: "xs \<noteq> [] \<Longrightarrow> last xs \<noteq> [] \<Longrightarrow> concat xs \<noteq> []"
  using last_in_set [of xs] by auto

lemma concat_take_proper:
  assumes "n < length xs" and "last xs \<noteq> []"
  shows "length (concat (take n xs)) < length (concat xs) \<and>
         take (length (concat (take n xs))) (concat xs) = concat (take n xs)"
proof -
  have split: "concat xs = concat (take n xs) @ concat (drop n xs)"
    by (metis append_take_drop_id concat_append)
  have ne: "drop n xs \<noteq> []" using assms(1) by simp
  have "last (drop n xs) = last xs" using assms(1) by simp
  with assms(2) have "last (drop n xs) \<noteq> []" by simp
  with ne have "concat (drop n xs) \<noteq> []" by (rule concat_last_nonempty)
  then show ?thesis using split by (metis append_eq_conv_conj length_append length_greater_0_conv less_add_same_cancel1)
qed

subsection \<open>Order of the promises\<close>

lemma run_snoc: "run js (evs @ [e]) s = step js e (run js evs s)"
  by (simp add: run_def)

lemma processNextRequest_frame:
  "pythonProcess (processNextRequest f s) = pythonProcess s \<and>
   nextPromise (processNextRequest f s) = nextPromise s"
  by (simp add: processNextRequest_cases sent_def finished_def split: list.splits sum.splits)

lemma handlePythonResponse_frame:
  "pythonProcess (handlePythonResponse prs chunk s) = pythonProcess s \<and>
   nextPromise (handlePythonResponse prs chunk s) = nextPromise s"
  by (simp add: handlePythonResponse_def tryParseResponse_cases finished_def
      split: option.splits json.splits)

lemma fireTimer_frame:
  "pythonProcess (fireTimer f h s) = pythonProcess s \<and>
   nextPromise (fireTimer f h s) = nextPromise s"
  by (simp add: fireTimer_def Let_def processNextRequest_frame onTimeout_cases finished_def
      split: option.splits timer_callback.splits)

lemma callKicadScript_frame:
  "fst (callKicadScript f cmd ps s) = nextPromise s \<and>
   pythonProcess (snd (callKicadScript f cmd ps s)) = pythonProcess s \<and>
   nextPromise (snd (callKicadScript f cmd ps s)) = Suc (nextPromise s)"
  by (simp add: callKicadScript_cases Let_def processNextRequest_frame split: option.splits)

lemma nextPromise_step:
  "nextPromise (step js e s) = nextPromise s + (if isSubmit e then 1 else 0)"
  by (cases e)
     (simp_all add: callKicadScript_frame handlePythonResponse_frame fireTimer_frame
        start_def onExit_def stop_def split: option.splits)

lemma pythonProcess_step:
  "keepsChild e \<Longrightarrow> pythonProcess (step js e s) = pythonProcess s"
  by (cases e)
     (simp_all add: callKicadScript_frame handlePythonResponse_frame fireTimer_frame)

lemma promiseIds_callKicadScript:
  assumes "broker_inv s" and "pythonProcess s = Some pid"
  shows "promiseIds (snd (callKicadScript f cmd ps s)) = promiseIds s @ [nextPromise s]"
proof -
  let ?s1 = "s\<lparr>requestQueue := requestQueue s @
                      [\<lparr>request = \<lparr>command = cmd, params = ps, timeout = commandTimeout cmd\<rparr>,
                        promise = nextPromise s\<rparr>],
                     nextPromise := Suc (nextPromise s)\<rparr>"
  have "broker_inv ?s1" using assms(1) by (rule broker_inv_enqueue)
  from broker_inv_processNextRequest [OF this, of f]
  have "promiseIds (processNextRequest f ?s1) = promiseIds ?s1" by blast
  then show ?thesis
    using assms(2) by (simp add: callKicadScript_cases Let_def promiseIds_enqueue)
qed

lemma promiseIds_step:
  assumes "broker_inv s" and "pythonProcess s = Some pid" and "keepsChild e"
  shows "promiseIds (step js e s) = promiseIds s @ (if isSubmit e then [nextPromise s] else [])"
proof (cases e)
  case (Submit cmd ps)
  then show ?thesis using promiseIds_callKicadScript [OF assms(1,2)] by simp
next
  case (Data chunk)
  then show ?thesis using broker_inv_handlePythonResponse [OF assms(1)] by simp
next
  case (Fire h)
  then show ?thesis using broker_inv_fireTimer [OF assms(1)] by simp
qed (use assms(3) in simp_all)


lemma inv_written_sent:
  "inv_written s \<Longrightarrow> currentRequestHandler s = None \<Longrightarrow> inv_written (sent e rest str s)"
  by (simp add: inv_written_def pendingIds_def sent_def split: option.splits)

lemma inv_written_finished:
  "inv_written s \<Longrightarrow> p \<notin> fst ` set (settled s) \<Longrightarrow> inv_written (finished p out s)"
  by (simp add: inv_written_def pendingIds_def finished_def split: option.splits)

lemma inv_written_cong:
  "stdinWritten t = stdinWritten s \<Longrightarrow> settled t = settled s \<Longrightarrow>
   currentRequestHandler t = currentRequestHandler s \<Longrightarrow> inv_written s \<Longrightarrow> inv_written t"
  by (simp add: inv_written_def pendingIds_def)

lemma inv_written_processNextRequest:
  assumes "broker_inv s" and "inv_written s"
  shows "inv_written (processNextRequest f s)"
proof (cases "requestQueue s")
  case Nil
  then show ?thesis using assms(2) by (simp add: processNextRequest_cases)
next
  case (Cons e rest)
  show ?thesis
  proof (cases "processingRequest s")
    case True
    then show ?thesis using assms(2) Cons by (simp add: processNextRequest_cases)
  next
    case False
    with assms(1) have idle: "currentRequestHandler s = None"
      by (simp add: broker_inv_def inv_busy_def)
    from assms(1) have ps: "inv_promises s" by (simp add: broker_inv_def)
    show ?thesis
    proof (cases "f (request e)")
      case (Inl x)
      have "inv_written (s\<lparr>requestQueue := rest\<rparr>)"
        using assms(2) by (rule inv_written_cong [rotated 3]) simp_all
      moreover have "promise e \<notin> fst ` set (settled (s\<lparr>requestQueue := rest\<rparr>))"
        using queued_unsettled [OF ps Cons] by simp
      ultimately have "inv_written (finished (promise e) (Rejected (Thrown x))
                         (s\<lparr>requestQueue := rest\<rparr>))"
        by (rule inv_written_finished)
      then show ?thesis using Cons False Inl by (simp add: processNextRequest_cases)
    next
      case (Inr str)
      have "inv_written (sent e rest str s)"
        using assms(2) idle by (rule inv_written_sent)
      then show ?thesis using Cons False Inr by (simp add: processNextRequest_cases)
    qed
  qed
qed

lemma inv_written_handlePythonResponse:
  assumes "broker_inv s" and "inv_written s"
  shows "inv_written (handlePythonResponse prs chunk s)"
proof (cases "currentRequestHandler s")
  case None
  then show ?thesis using assms(2)
    by (simp add: handlePythonResponse_def tryParseResponse_cases inv_written_def pendingIds_def)
next
  case (Some cur)
  from assms(1) have "inv_promises s" by (simp add: broker_inv_def)
  then have fresh: "hpromise cur \<notin> fst ` set (settled s)"
    using Some by (rule pending_unsettled)
  have "inv_written (finished (hpromise cur) out
          (s\<lparr>responseBuffer := [], timers := ts\<rparr>))" for out ts
  proof (rule inv_written_finished)
    show "inv_written (s\<lparr>responseBuffer := [], timers := ts\<rparr>)"
      using assms(2) by (rule inv_written_cong [rotated 3]) simp_all
    show "hpromise cur \<notin> fst ` set (settled (s\<lparr>responseBuffer := [], timers := ts\<rparr>))"
      using fresh by simp
  qed
  moreover have "inv_written (s\<lparr>responseBuffer := b\<rparr>)" for b
    using assms(2) by (rule inv_written_cong [rotated 3]) simp_all
  ultimately show ?thesis using Some
    by (simp add: handlePythonResponse_def tryParseResponse_cases
        split: option.splits json.splits)
qed

lemma broker_inv_fire_drain:
  assumes "broker_inv s" and "(h, Drain) \<in> set (timers s)"
  shows "broker_inv (s\<lparr>timers := filter (\<lambda>t. fst t \<noteq> h) (timers s)\<rparr>)"
proof -
  from assms(1) have bs: "inv_busy s" and ts: "inv_timers s" and ps: "inv_promises s"
    by (simp_all add: broker_inv_def)
  have "inv_timers (s\<lparr>timers := filter (\<lambda>t. fst t \<noteq> h) (timers s)\<rparr>)"
    using ts assms(2) by (rule inv_timers_fire_drain)
  moreover have "inv_busy (s\<lparr>timers := filter (\<lambda>t. fst t \<noteq> h) (timers s)\<rparr>)"
    using bs by (simp add: inv_busy_def)
  moreover have "inv_promises (s\<lparr>timers := filter (\<lambda>t. fst t \<noteq> h) (timers s)\<rparr>)"
    using ps by (simp add: inv_promises_def promiseIds_def pendingIds_def)
  ultimately show ?thesis by (simp add: broker_inv_def)
qed

lemma inv_written_fireTimer:
  assumes "broker_inv s" and "inv_written s"
  shows "inv_written (fireTimer f h s)"
proof (cases "map_of (timers s) h")
  case None
  then show ?thesis using assms(2) by (simp add: fireTimer_def)
next
  case (Some cb)
  then have mem: "(h, cb) \<in> set (timers s)" by (rule map_of_SomeD)
  let ?s1 = "s\<lparr>timers := filter (\<lambda>t. fst t \<noteq> h) (timers s)\<rparr>"
  have w1: "inv_written ?s1"
    using assms(2) by (rule inv_written_cong [rotated 3]) simp_all
  show ?thesis
  proof (cases cb)
    case Drain
    have "broker_inv ?s1" using assms(1) mem unfolding Drain by (rule broker_inv_fire_drain)
    then have "inv_written (processNextRequest f ?s1)"
      using w1 by (rule inv_written_processNextRequest)
    then show ?thesis using Some Drain by (simp add: fireTimer_def)
  next
    case (Deadline p d c)
    from assms(1) have ts: "inv_timers s" and ps: "inv_promises s"
      by (simp_all add: broker_inv_def)
    from mem ts have cur: "currentRequestHandler s = Some \<lparr>hpromise = p, timeoutHandle = h\<rparr>"
      unfolding Deadline inv_timers_def by blast
    have fresh: "p \<notin> fst ` set (settled s)"
      using pending_unsettled [OF ps cur] by simp
    have "inv_written (finished p (Rejected (CommandTimeoutError d c))
            (?s1\<lparr>responseBuffer := []\<rparr>))"
    proof (rule inv_written_finished)
      show "inv_written (?s1\<lparr>responseBuffer := []\<rparr>)"
        using assms(2) by (rule inv_written_cong [rotated 3]) simp_all
      show "p \<notin> fst ` set (settled (?s1\<lparr>responseBuffer := []\<rparr>))"
        using fresh by simp
    qed
    then show ?thesis using Some Deadline by (simp add: fireTimer_def onTimeout_cases)
  qed
qed

lemma inv_written_callKicadScript:
  assumes "broker_inv s" and "inv_written s"
  shows "inv_written (snd (callKicadScript f cmd ps s))"
proof (cases "pythonProcess s")
  case None
  then show ?thesis using assms(2)
    by (simp add: callKicadScript_cases inv_written_def pendingIds_def)
next
  case (Some pid)
  let ?s1 = "s\<lparr>requestQueue := requestQueue s @
                      [\<lparr>request = \<lparr>command = cmd, params = ps, timeout = commandTimeout cmd\<rparr>,
                        promise = nextPromise s\<rparr>],
                     nextPromise := Suc (nextPromise s)\<rparr>"
  have inv1: "broker_inv ?s1" using assms(1) by (rule broker_inv_enqueue)
  have w1: "inv_written ?s1"
    using assms(2) by (rule inv_written_cong [rotated 3]) simp_all
  from inv1 w1 have "inv_written (processNextRequest f ?s1)"
    by (rule inv_written_processNextRequest)
  then show ?thesis using Some w1 by (simp add: callKicadScript_cases Let_def)
qed

lemma inv_written_step:
  assumes "broker_inv s" and "inv_written s"
  shows "inv_written (step js e s)"
proof (cases e)
  case (Submit cmd ps)
  then show ?thesis using inv_written_callKicadScript [OF assms] by simp
next
  case (Data chunk)
  then show ?thesis using inv_written_handlePythonResponse [OF assms] by simp
next
  case (Fire h)
  then show ?thesis using inv_written_fireTimer [OF assms] by simp
next
  case (Spawn pid)
  then show ?thesis using assms(2) by (simp add: start_def inv_written_def pendingIds_def)
next
  case Exit
  then show ?thesis using assms(2) by (simp add: onExit_def inv_written_def pendingIds_def)
next
  case Stop
  then show ?thesis using assms(2)
    by (simp add: stop_def inv_written_def pendingIds_def split: option.splits)
qed


lemma append_eq_upt:
  assumes "xs @ ys = [a..<b]"
  shows "xs = [a..<a + length xs] \<and> ys = [a + length xs..<b]"
proof -
  from assms have "length (xs @ ys) = length [a..<b]" by simp
  then have "length xs + length ys = b - a" by simp
  then have "a + length xs \<le> b \<or> (length xs = 0 \<and> length ys = 0)" by arith
  then have len: "a + length xs \<le> b \<or> (xs = [] \<and> ys = [])" by simp
  have "xs = take (length xs) (xs @ ys)" by simp
  also have "\<dots> = take (length xs) [a..<b]" using assms by simp
  finally have 1: "xs = take (length xs) [a..<b]" .
  have "ys = drop (length xs) (xs @ ys)" by simp
  also have "\<dots> = drop (length xs) [a..<b]" using assms by simp
  finally have 2: "ys = [a + length xs..<b]" by simp
  from len show ?thesis
  proof
    assume "a + length xs \<le> b"
    then have "take (length xs) [a..<b] = [a..<a + length xs]" by (rule take_upt)
    with 1 2 show ?thesis by simp
  next
    assume "xs = [] \<and> ys = []"
    with 2 show ?thesis by simp
  qed
qed

lemma ordered_run:
  assumes "list_all keepsChild evs"
  shows "broker_inv (run js evs (start pid constructed)) \<and>
         pythonProcess (run js evs (start pid constructed)) = Some pid \<and>
         promiseIds (run js evs (start pid constructed)) =
           [0..<nextPromise (run js evs (start pid constructed))] \<and>
         inv_written (run js evs (start pid constructed)) \<and>
         nextPromise (run js evs (start pid constructed)) = length (filter isSubmit evs)"
  using assms
proof (induction evs rule: rev_induct)
  case Nil
  show ?case
    using broker_inv_constructed [where ?'a = 'a and ?'b = 'b and ?'c = 'c]
    by (simp add: run_def broker_inv_start)
       (simp add: start_def constructed_def promiseIds_def pendingIds_def inv_written_def)
next
  case (snoc e evs)
  let ?s = "run js evs (start pid constructed)"
  from snoc.prems have keeps: "keepsChild e" and rest: "list_all keepsChild evs" by simp_all
  from snoc.IH [OF rest] have inv: "broker_inv ?s" and alive: "pythonProcess ?s = Some pid"
    and ord: "promiseIds ?s = [0..<nextPromise ?s]" and wr: "inv_written ?s"
    and cnt: "nextPromise ?s = length (filter isSubmit evs)"
    by blast+
  have "broker_inv (step js e ?s)" using inv by (rule broker_inv_step)
  moreover have "pythonProcess (step js e ?s) = Some pid"
    using pythonProcess_step [OF keeps, of js ?s] alive by simp
  moreover have "promiseIds (step js e ?s) = [0..<nextPromise (step js e ?s)]"
    using promiseIds_step [OF inv alive keeps, of js] ord
    by (simp add: nextPromise_step)
  moreover have "inv_written (step js e ?s)" using inv wr by (rule inv_written_step)
  moreover have "nextPromise (step js e ?s) = length (filter isSubmit (evs @ [e]))"
    using cnt by (simp add: nextPromise_step)
  ultimately show ?case by (simp add: run_snoc)
qed

lemma ordered_settlement:
  assumes "list_all keepsChild evs"
  shows "map fst (settled (run js evs (start pid constructed))) =
           [0..<length (settled (run js evs (start pid constructed)))] \<and>
         pendingIds (run js evs (start pid constructed)) =
           (if processingRequest (run js evs (start pid constructed))
            then [length (settled (run js evs (start pid constructed)))] else []) \<and>
         map promise (requestQueue (run js evs (start pid constructed))) =
           [length (settled (run js evs (start pid constructed))) +
            length (pendingIds (run js evs (start pid constructed)))..<
            nextPromise (run js evs (start pid constructed))] \<and>
         nextPromise (run js evs (start pid constructed)) = length (filter isSubmit evs) \<and>
         length (stdinWritten (run js evs (start pid constructed))) \<le>
           length (settled (run js evs (start pid constructed))) +
           length (pendingIds (run js evs (start pid constructed)))"
proof -
  let ?s = "run js evs (start pid constructed)"
  from ordered_run [OF assms, of js pid] have inv: "broker_inv ?s"
    and ord: "promiseIds ?s = [0..<nextPromise ?s]" and wr: "inv_written ?s"
    and cnt: "nextPromise ?s = length (filter isSubmit evs)"
    by blast+
  from ord have "map fst (settled ?s) @ (pendingIds ?s @ map promise (requestQueue ?s)) =
                 [0..<nextPromise ?s]"
    by (simp add: promiseIds_def)
  from append_eq_upt [OF this]
  have a: "map fst (settled ?s) = [0..<length (settled ?s)]"
    and "pendingIds ?s @ map promise (requestQueue ?s) = [0 + length (settled ?s)..<nextPromise ?s]"
    by simp_all
  from append_eq_upt [OF this(2)]
  have b: "pendingIds ?s = [length (settled ?s)..<length (settled ?s) + length (pendingIds ?s)]"
    and c: "map promise (requestQueue ?s) =
              [length (settled ?s) + length (pendingIds ?s)..<nextPromise ?s]"
    by simp_all
  from inv have busy: "processingRequest ?s \<longleftrightarrow> currentRequestHandler ?s \<noteq> None"
    by (simp add: broker_inv_def inv_busy_def)
  have len: "length (pendingIds ?s) = (if processingRequest ?s then 1 else 0)"
    using busy by (auto simp: pendingIds_def)
  have b': "pendingIds ?s = (if processingRequest ?s then [length (settled ?s)] else [])"
    using b unfolding len by (simp split: if_splits)
  from a b' c cnt wr show ?thesis by (simp add: inv_written_def)
qed

subsection \<open>Timers of the pending call\<close>

lemma broker_inv_process: "broker_inv (s\<lparr>pythonProcess := p\<rparr>) = broker_inv s"
  by (simp add: broker_inv_def inv_busy_def inv_timers_def inv_promises_def promiseIds_def
      pendingIds_def)

lemma pending_timer_armed:
  assumes "inv_timers s" and "currentRequestHandler s = Some cur"
  shows "\<exists>d c. map_of (timers s) (timeoutHandle cur) = Some (Deadline (hpromise cur) d c)"
proof -
  from assms obtain d c
    where "(timeoutHandle cur, Deadline (hpromise cur) d c) \<in> set (timers s)"
    unfolding inv_timers_def by blast
  moreover from assms(1) have "distinct (map fst (timers s))"
    by (simp add: inv_timers_def)
  ultimately have "map_of (timers s) (timeoutHandle cur) = Some (Deadline (hpromise cur) d c)"
    by simp
  then show ?thesis by blast
qed

lemma fireTimer_deadline:
  assumes "broker_inv s" and "currentRequestHandler s = Some cur"
    and "map_of (timers s) (timeoutHandle cur) = Some (Deadline (hpromise cur) d c)"
  shows "fireTimer f (timeoutHandle cur) s =
           s\<lparr>processingRequest := False, responseBuffer := [], currentRequestHandler := None,
             timers := filter (\<lambda>t. fst t \<noteq> timeoutHandle cur) (timers s) @ [(nextTimer s, Drain)],
             nextTimer := Suc (nextTimer s),
             settled := settled s @ [(hpromise cur, Rejected (CommandTimeoutError d c))]\<rparr>"
proof -
  from assms(1) have "inv_promises s" by (simp add: broker_inv_def)
  then have "hpromise cur \<notin> fst ` set (settled s)"
    using assms(2) by (rule pending_unsettled)
  then show ?thesis
    using assms(3) by (cases s) (simp add: fireTimer_def onTimeout_cases finished_def)
qed

lemma fireTimer_fresh_drain:
  assumes "\<forall>t \<in> set ts. fst t < (n::nat)"
  shows "map_of (filter (\<lambda>t. fst t \<noteq> h) ts @ [(n, Drain)]) n = Some Drain"
proof -
  have "n \<notin> fst ` set (filter (\<lambda>t. fst t \<noteq> h) ts)"
    using assms by auto
  then have "map_of (filter (\<lambda>t. fst t \<noteq> h) ts) n = None"
    by (simp add: map_of_eq_None_iff)
  then show ?thesis by (simp add: map_add_def)
qed

subsection \<open>A child that answers at once\<close>

lemma run_Cons: "run js (e # evs) s = run js evs (step js e s)"
  by (simp add: run_def)

lemma run_append: "run js (xs @ ys) s = run js ys (run js xs s)"
  by (simp add: run_def)

lemma echo_round:
  assumes inv: "broker_inv s" and alive: "pythonProcess s = Some pid"
    and cur: "currentRequestHandler s = Some cur"
    and nt: "nextTimer s = Suc (timeoutHandle cur)"
    and buf: "responseBuffer s = []"
    and doc: "parse js doc = Some v" "v \<noteq> JNull"
  shows "pythonProcess (run js [Data doc, Fire (Suc (timeoutHandle cur))] s) = Some pid \<and>
         responseBuffer (run js [Data doc, Fire (Suc (timeoutHandle cur))] s) = [] \<and>
         (requestQueue s = [] \<longrightarrow>
            settled (run js [Data doc, Fire (Suc (timeoutHandle cur))] s) =
              settled s @ [(hpromise cur, Resolved v)] \<and>
            requestQueue (run js [Data doc, Fire (Suc (timeoutHandle cur))] s) = [] \<and>
            stdinWritten (run js [Data doc, Fire (Suc (timeoutHandle cur))] s) = stdinWritten s) \<and>
         (\<forall>e rest str. requestQueue s = e # rest \<and> stringify js (request e) = Inr str \<longrightarrow>
            settled (run js [Data doc, Fire (Suc (timeoutHandle cur))] s) =
              settled s @ [(hpromise cur, Resolved v)] \<and>
            requestQueue (run js [Data doc, Fire (Suc (timeoutHandle cur))] s) = rest \<and>
            currentRequestHandler (run js [Data doc, Fire (Suc (timeoutHandle cur))] s) =
              Some \<lparr>hpromise = promise e, timeoutHandle = timeoutHandle cur + 2\<rparr> \<and>
            nextTimer (run js [Data doc, Fire (Suc (timeoutHandle cur))] s) =
              Suc (timeoutHandle cur + 2) \<and>
            stdinWritten (run js [Data doc, Fire (Suc (timeoutHandle cur))] s) =
              stdinWritten s @ [(pid, str @ [CHR 0x0A])])"
proof -
  let ?h = "timeoutHandle cur"
  let ?s1 = "handlePythonResponse (parse js) doc s"
  from inv have ts: "inv_timers s" and ps: "inv_promises s" by (simp_all add: broker_inv_def)
  have fresh: "hpromise cur \<notin> fst ` set (settled s)"
    using ps cur by (rule pending_unsettled)
  have s1: "?s1 = finished (hpromise cur) (Resolved v)
               (s\<lparr>responseBuffer := [], timers := filter (\<lambda>t. fst t \<noteq> ?h) (timers s)\<rparr>)"
    using cur buf doc
    by (simp add: handlePythonResponse_def tryParseResponse_cases split: json.splits)
  have sel1: "settled ?s1 = settled s @ [(hpromise cur, Resolved v)] \<and>
      pythonProcess ?s1 = Some pid \<and> responseBuffer ?s1 = [] \<and>
      requestQueue ?s1 = requestQueue s \<and> stdinWritten ?s1 = stdinWritten s \<and>
      \<not> processingRequest ?s1 \<and> nextTimer ?s1 = Suc (Suc ?h) \<and>
      timers ?s1 = filter (\<lambda>t. fst t \<noteq> ?h) (timers s) @ [(Suc ?h, Drain)]"
    using fresh alive nt by (simp add: s1 finished_def)
  from ts have "\<forall>t \<in> set (timers s). fst t < Suc ?h" by (simp add: inv_timers_def nt)
  then have "map_of (filter (\<lambda>t. fst t \<noteq> ?h) (timers s) @ [(Suc ?h, Drain)]) (Suc ?h) = Some Drain"
    by (rule fireTimer_fresh_drain)
  then have "map_of (timers ?s1) (Suc ?h) = Some Drain" using sel1 by simp
  then have s2: "fireTimer (stringify js) (Suc ?h) ?s1 =
      processNextRequest (stringify js)
        (?s1\<lparr>timers := filter (\<lambda>t. fst t \<noteq> Suc ?h) (timers ?s1)\<rparr>)"
    by (simp add: fireTimer_def)
  have r: "run js [Data doc, Fire (Suc ?h)] s = fireTimer (stringify js) (Suc ?h) ?s1"
    by (simp add: run_def)
  have common: "pythonProcess (run js [Data doc, Fire (Suc ?h)] s) = Some pid \<and>
         responseBuffer (run js [Data doc, Fire (Suc ?h)] s) = []"
    unfolding r s2 using sel1
    by (simp add: processNextRequest_cases sent_def finished_def split: list.splits sum.splits)
  have empty: "settled (run js [Data doc, Fire (Suc ?h)] s) =
              settled s @ [(hpromise cur, Resolved v)] \<and>
            requestQueue (run js [Data doc, Fire (Suc ?h)] s) = [] \<and>
            stdinWritten (run js [Data doc, Fire (Suc ?h)] s) = stdinWritten s"
    if "requestQueue s = []"
    unfolding r s2 using sel1 that by (simp add: processNextRequest_cases)
  have more: "settled (run js [Data doc, Fire (Suc ?h)] s) =
              settled s @ [(hpromise cur, Resolved v)] \<and>
            requestQueue (run js [Data doc, Fire (Suc ?h)] s) = rest \<and>
            currentRequestHandler (run js [Data doc, Fire (Suc ?h)] s) =
              Some \<lparr>hpromise = promise e, timeoutHandle = ?h + 2\<rparr> \<and>
            nextTimer (run js [Data doc, Fire (Suc ?h)] s) = Suc (?h + 2) \<and>
            stdinWritten (run js [Data doc, Fire (Suc ?h)] s) =
              stdinWritten s @ [(pid, str @ [CHR 0x0A])]"
    if "requestQueue s = e # rest \<and> stringify js (request e) = Inr str" for e rest str
    unfolding r s2 using sel1 that by (simp add: processNextRequest_cases sent_def)
  from common empty more show ?thesis by blast
qed


lemma echo_rounds:
  assumes doc: "parse js doc = Some v" "v \<noteq> JNull"
  shows "broker_inv s \<Longrightarrow> pythonProcess s = Some pid \<Longrightarrow> currentRequestHandler s = Some cur \<Longrightarrow>
         nextTimer s = Suc (timeoutHandle cur) \<Longrightarrow> responseBuffer s = [] \<Longrightarrow>
         requestQueue s = q \<Longrightarrow> \<forall>e \<in> set q. \<exists>str. stringify js (request e) = Inr str \<Longrightarrow>
         settled (run js (echoRounds (timeoutHandle cur) (Suc (length q)) doc) s) =
           settled s @ map (\<lambda>p. (p, Resolved v)) (hpromise cur # map promise q) \<and>
         stdinWritten (run js (echoRounds (timeoutHandle cur) (Suc (length q)) doc) s) =
           stdinWritten s @ map (\<lambda>e. (pid, projr (stringify js (request e)) @ [CHR 0x0A])) q"
proof (induction q arbitrary: s cur)
  case Nil
  from echo_round [OF Nil(1-5) doc] Nil(6)
  show ?case by simp
next
  case (Cons e rest)
  let ?h = "timeoutHandle cur"
  let ?s2 = "run js [Data doc, Fire (Suc ?h)] s"
  let ?cur = "\<lparr>hpromise = promise e, timeoutHandle = ?h + 2\<rparr>"
  from Cons.prems(7) obtain str where str: "stringify js (request e) = Inr str" by auto
  from echo_round [OF Cons.prems(1-5) doc] Cons.prems(6) str
  have alive: "pythonProcess ?s2 = Some pid" and buf: "responseBuffer ?s2 = []"
    and st: "settled ?s2 = settled s @ [(hpromise cur, Resolved v)]"
    and q: "requestQueue ?s2 = rest"
    and cur: "currentRequestHandler ?s2 = Some ?cur"
    and nt: "nextTimer ?s2 = Suc (timeoutHandle ?cur)"
    and wr: "stdinWritten ?s2 = stdinWritten s @ [(pid, str @ [CHR 0x0A])]"
    by simp_all
  have inv: "broker_inv ?s2" using Cons.prems(1) by (rule broker_inv_run)
  have ser: "\<forall>e \<in> set rest. \<exists>str. stringify js (request e) = Inr str"
    using Cons.prems(7) by simp
  have split: "run js (echoRounds ?h (Suc (length (e # rest))) doc) s =
               run js (echoRounds (timeoutHandle ?cur) (Suc (length rest)) doc) ?s2"
    by (simp add: run_def)
  from Cons.IH [OF inv alive cur nt buf q ser]
  show ?case unfolding split by (simp add: st wr str)
qed

lemma submits_busy:
  "processingRequest s \<Longrightarrow> pythonProcess s = Some pid \<Longrightarrow>
   run js (map (\<lambda>(cmd, ps). Submit cmd ps) reqs) s =
     s\<lparr>requestQueue := requestQueue s @ entriesFrom (nextPromise s) reqs,
       nextPromise := nextPromise s + length reqs\<rparr>"
proof (induction reqs arbitrary: s)
  case Nil
  show ?case by (simp add: run_def)
next
  case (Cons r reqs)
  obtain cmd ps where r: "r = (cmd, ps)" by (cases r)
  let ?s1 = "s\<lparr>requestQueue := requestQueue s @
                 [\<lparr>request = \<lparr>command = cmd, params = ps, timeout = commandTimeout cmd\<rparr>,
                   promise = nextPromise s\<rparr>],
               nextPromise := Suc (nextPromise s)\<rparr>"
  have s1: "snd (callKicadScript (stringify js) cmd ps s) = ?s1"
    using Cons.prems by (simp add: callKicadScript_cases)
  have "processingRequest ?s1" "pythonProcess ?s1 = Some pid"
    using Cons.prems by simp_all
  from Cons.IH [OF this]
  show ?case by (simp add: r run_Cons s1)
qed

lemma entriesFrom_promises: "map promise (entriesFrom n reqs) = [n..<n + length reqs]"
proof (induction reqs arbitrary: n)
  case Nil
  show ?case by simp
next
  case (Cons r reqs)
  obtain cmd ps where r: "r = (cmd, ps)" by (cases r)
  have "[n..<n + length (r # reqs)] = n # [Suc n..<Suc n + length reqs]"
    by (subst upt_rec) simp
  then show ?case using Cons.IH [of "Suc n"] by (simp add: r)
qed

lemma entriesFrom_requests:
  "map request (entriesFrom n reqs) =
     map (\<lambda>(cmd, ps). \<lparr>command = cmd, params = ps, timeout = commandTimeout cmd\<rparr>) reqs"
proof (induction reqs arbitrary: n)
  case Nil
  show ?case by simp
next
  case (Cons r reqs)
  obtain cmd ps where "r = (cmd, ps)" by (cases r)
  then show ?case using Cons.IH [of "Suc n"] by simp
qed


lemma length_entriesFrom: "length (entriesFrom n reqs) = length reqs"
  using arg_cong [OF entriesFrom_requests [of n reqs], of length] by simp

lemma echo_resolves_all:
  assumes ser: "\<forall>(cmd, ps) \<in> set reqs. \<exists>str.
                  stringify (js :: ('p, 'n, 'x) builtins) \<lparr>command = cmd, params = ps, timeout = commandTimeout cmd\<rparr> = Inr str"
    and doc: "parse js doc = Some v" "v \<noteq> JNull"
  shows "settled (run js (echoSchedule reqs doc) (start pid constructed)) =
           map (\<lambda>i. (i, Resolved v)) [0..<length reqs] \<and>
         stdinWritten (run js (echoSchedule reqs doc) (start pid constructed)) =
           map (\<lambda>(cmd, ps). (pid, projr (stringify js
                  \<lparr>command = cmd, params = ps, timeout = commandTimeout cmd\<rparr>) @ [CHR 0x0A])) reqs"
proof (cases reqs)
  case Nil
  then show ?thesis by (simp add: echoSchedule_def run_def start_def constructed_def)
next
  case (Cons r rest)
  obtain cmd ps where r: "r = (cmd, ps)" by (cases r)
  let ?req = "\<lambda>(cmd, ps). \<lparr>command = cmd, params = ps, timeout = commandTimeout cmd\<rparr>"
  let ?s0 = "start pid constructed :: ('p, 'n, 'x) server"
  let ?s1 = "step js (Submit cmd ps) ?s0"
  let ?t = "run js (map (\<lambda>(cmd, ps). Submit cmd ps) rest) ?s1"
  let ?cur = "\<lparr>hpromise = 0, timeoutHandle = 0\<rparr>"
  from ser obtain str where str: "stringify js (?req (cmd, ps)) = Inr str"
    unfolding Cons r by auto
  have s1: "processingRequest ?s1 \<and> pythonProcess ?s1 = Some pid \<and>
            currentRequestHandler ?s1 = Some ?cur \<and> nextTimer ?s1 = Suc 0 \<and>
            responseBuffer ?s1 = [] \<and> requestQueue ?s1 = [] \<and> nextPromise ?s1 = Suc 0 \<and>
            settled ?s1 = [] \<and> stdinWritten ?s1 = [(pid, str @ [CHR 0x0A])]"
    using str
    by (simp add: start_def constructed_def callKicadScript_cases processNextRequest_cases
        sent_def)
  then have busy: "processingRequest ?s1" and alive1: "pythonProcess ?s1 = Some pid"
    by blast+
  note t = submits_busy [OF busy alive1, of js rest]
  have sel: "pythonProcess ?t = Some pid \<and> currentRequestHandler ?t = Some ?cur \<and>
             nextTimer ?t = Suc (timeoutHandle ?cur) \<and> responseBuffer ?t = [] \<and>
             requestQueue ?t = entriesFrom (Suc 0) rest \<and> settled ?t = [] \<and>
             stdinWritten ?t = [(pid, str @ [CHR 0x0A])]"
    unfolding t using s1 by simp
  have "broker_inv ?s0"
    using broker_inv_constructed by (simp add: broker_inv_start)
  then have "broker_inv (run js (Submit cmd ps # map (\<lambda>(cmd, ps). Submit cmd ps) rest) ?s0)"
    by (rule broker_inv_run)
  then have inv: "broker_inv ?t" by (simp add: run_Cons)
  have ser': "\<forall>e \<in> set (entriesFrom (Suc 0) rest). \<exists>str. stringify js (request e) = Inr str"
  proof
    fix e assume "e \<in> set (entriesFrom (Suc 0) rest)"
    then have "request e \<in> set (map request (entriesFrom (Suc 0) rest))" by simp
    then have "request e \<in> ?req ` set rest" by (simp add: entriesFrom_requests)
    then show "\<exists>str. stringify js (request e) = Inr str"
      using ser unfolding Cons by auto
  qed
  have split: "run js (echoSchedule reqs doc) ?s0 =
               run js (echoRounds (timeoutHandle ?cur)
                         (Suc (length (entriesFrom (Suc 0) rest))) doc) ?t"
  proof -
    show ?thesis
      by (simp add: echoSchedule_def Cons r run_append run_Cons length_entriesFrom)
  qed
  from sel have a: "pythonProcess ?t = Some pid" and b: "currentRequestHandler ?t = Some ?cur"
    and c: "nextTimer ?t = Suc (timeoutHandle ?cur)" and d: "responseBuffer ?t = []"
    and e: "requestQueue ?t = entriesFrom (Suc 0) rest" and f: "settled ?t = []"
    and g: "stdinWritten ?t = [(pid, str @ [CHR 0x0A])]"
    by blast+
  have upt: "[0..<length reqs] = 0 # [Suc 0..<Suc 0 + length rest]"
    unfolding Cons by (subst upt_rec) simp
  have wr: "map (\<lambda>e. (pid, projr (stringify js (request e)) @ [CHR 0x0A]))
              (entriesFrom (Suc 0) rest) =
            map (\<lambda>(cmd, ps). (pid, projr (stringify js
                  \<lparr>command = cmd, params = ps, timeout = commandTimeout cmd\<rparr>) @ [CHR 0x0A])) rest"
  proof -
    have "map (\<lambda>e. (pid, projr (stringify js (request e)) @ [CHR 0x0A]))
              (entriesFrom (Suc 0) rest) =
          map (\<lambda>q. (pid, projr (stringify js q) @ [CHR 0x0A]))
              (map request (entriesFrom (Suc 0) rest))"
      by (simp add: comp_def)
    then show ?thesis
      by (simp add: entriesFrom_requests comp_def case_prod_unfold)
  qed
  note res = echo_rounds [OF doc inv a b c d e ser']
  have "settled (run js (echoSchedule reqs doc) ?s0) =
          settled ?t @ map (\<lambda>p. (p, Resolved v)) (hpromise ?cur # map promise (entriesFrom (Suc 0) rest))"
    using res unfolding split by blast
  also have "\<dots> = map (\<lambda>i. (i, Resolved v)) [0..<length reqs]"
    unfolding f upt entriesFrom_promises by simp
  finally have S: "settled (run js (echoSchedule reqs doc) ?s0) =
                     map (\<lambda>i. (i, Resolved v)) [0..<length reqs]" .
  have "stdinWritten (run js (echoSchedule reqs doc) ?s0) =
          stdinWritten ?t @ map (\<lambda>e. (pid, projr (stringify js (request e)) @ [CHR 0x0A]))
                              (entriesFrom (Suc 0) rest)"
    using res unfolding split by blast
  also have "\<dots> = map (\<lambda>(cmd, ps). (pid, projr (stringify js
                  \<lparr>command = cmd, params = ps, timeout = commandTimeout cmd\<rparr>) @ [CHR 0x0A])) reqs"
    unfolding g wr using str by (simp add: Cons r)
  finally show ?thesis using S by blast
qed

subsection \<open>The end of a pending call\<close>

text \<open>
  Whatever event ends the pending call (a chunk that completes the response, or the
  deadline), that one step settles the promise of the call and no other, empties the
  buffer, clears the handler and the busy flag, removes the deadline from the armed timers
  and schedules a drain; the queue is not touched and nothing is written in that step.
\<close>

lemma pending_call_completion:
  assumes inv: "broker_inv s" and pending: "currentRequestHandler s = Some cur"
    and ended: "currentRequestHandler (step js e s) \<noteq> Some cur"
  shows "\<exists>out. settled (step js e s) = settled s @ [(hpromise cur, out)] \<and>
           responseBuffer (step js e s) = [] \<and>
           currentRequestHandler (step js e s) = None \<and>
           \<not> processingRequest (step js e s) \<and>
           timers (step js e s) =
             filter (\<lambda>t. fst t \<noteq> timeoutHandle cur) (timers s) @ [(nextTimer s, Drain)] \<and>
           requestQueue (step js e s) = requestQueue s \<and>
           stdinWritten (step js e s) = stdinWritten s"
proof -
  from inv have bs: "inv_busy s" and ts: "inv_timers s" and ps: "inv_promises s"
    by (simp_all add: broker_inv_def)
  from bs pending have busy: "processingRequest s" by (simp add: inv_busy_def)
  have fresh: "hpromise cur \<notin> fst ` set (settled s)"
    using ps pending by (rule pending_unsettled)
  show ?thesis
  proof (cases e)
    case (Submit cmd ps)
    have "currentRequestHandler (step js e s) = Some cur"
      using pending busy unfolding Submit
      by (simp add: callKicadScript_cases Let_def split: option.splits)
    with ended show ?thesis by simp
  next
    case (Data chunk)
    show ?thesis
    proof (cases "\<exists>v. parse js (responseBuffer s @ chunk) = Some v \<and> v \<noteq> JNull")
      case False
      then have "step js e s = s\<lparr>responseBuffer := responseBuffer s @ chunk\<rparr>"
        using pending unfolding Data
        by (auto simp: handlePythonResponse_def tryParseResponse_cases
            split: option.splits json.splits)
      with ended pending show ?thesis by simp
    next
      case True
      then obtain v where v: "parse js (responseBuffer s @ chunk) = Some v" "v \<noteq> JNull"
        by blast
      have "step js e s = finished (hpromise cur) (Resolved v)
              (s\<lparr>responseBuffer := [],
                 timers := filter (\<lambda>t. fst t \<noteq> timeoutHandle cur) (timers s)\<rparr>)"
        using pending v unfolding Data
        by (simp add: handlePythonResponse_def tryParseResponse_cases split: json.splits)
      then show ?thesis using fresh by (simp add: finished_def)
    qed
  next
    case (Fire h)
    show ?thesis
    proof (cases "map_of (timers s) h")
      case None
      then have "step js e s = s" unfolding Fire by (simp add: fireTimer_def)
      with ended pending show ?thesis by simp
    next
      case (Some cb)
      then have mem: "(h, cb) \<in> set (timers s)" by (rule map_of_SomeD)
      show ?thesis
      proof (cases cb)
        case Drain
        have "currentRequestHandler (step js e s) = Some cur"
          using Some pending busy unfolding Fire Drain
          by (simp add: fireTimer_def processNextRequest_cases Let_def split: list.splits)
        with ended show ?thesis by simp
      next
        case (Deadline p d c)
        with mem ts have "currentRequestHandler s = Some \<lparr>hpromise = p, timeoutHandle = h\<rparr>"
          unfolding inv_timers_def by blast
        with pending have cur: "cur = \<lparr>hpromise = p, timeoutHandle = h\<rparr>" by simp
        have armed: "map_of (timers s) (timeoutHandle cur) = Some (Deadline (hpromise cur) d c)"
          using Some Deadline cur by simp
        have "step js e s = fireTimer (stringify js) (timeoutHandle cur) s"
          unfolding Fire using cur by simp
        then show ?thesis
          by (simp add: fireTimer_deadline [OF inv pending armed])
      qed
    qed
  next
    case (Spawn pid)
    with ended pending show ?thesis by (simp add: start_def)
  next
    case Exit
    with ended pending show ?thesis by (simp add: onExit_def)
  next
    case Stop
    with ended pending show ?thesis by (simp add: stop_def split: option.splits)
  qed
qed

text \<open>
  The step that ends a pending call is a chunk that completes a document, which resolves the
  promise, or the deadline of the call, which rejects it with the command-timeout error.
  While a call is pending its promise is unsettled and its deadline is armed.
\<close>

lemma pending_call_outcome:
  assumes inv: "broker_inv s" and pending: "currentRequestHandler s = Some cur"
    and ended: "currentRequestHandler (step js e s) \<noteq> Some cur"
  shows "(\<exists>chunk v. e = Data chunk \<and> parse js (responseBuffer s @ chunk) = Some v \<and>
            settled (step js e s) = settled s @ [(hpromise cur, Resolved v)]) \<or>
         (\<exists>d c. e = Fire (timeoutHandle cur) \<and>
            settled (step js e s) =
              settled s @ [(hpromise cur, Rejected (CommandTimeoutError d c))])"
proof -
  from inv have bs: "inv_busy s" and ts: "inv_timers s" and ps: "inv_promises s"
    by (simp_all add: broker_inv_def)
  from bs pending have busy: "processingRequest s" by (simp add: inv_busy_def)
  have fresh: "hpromise cur \<notin> fst ` set (settled s)"
    using ps pending by (rule pending_unsettled)
  show ?thesis
  proof (cases e)
    case (Submit cmd ps)
    have "currentRequestHandler (step js e s) = Some cur"
      using pending busy unfolding Submit
      by (simp add: callKicadScript_cases Let_def split: option.splits)
    with ended show ?thesis by simp
  next
    case (Data chunk)
    show ?thesis
    proof (cases "\<exists>v. parse js (responseBuffer s @ chunk) = Some v \<and> v \<noteq> JNull")
      case False
      then have "step js e s = s\<lparr>responseBuffer := responseBuffer s @ chunk\<rparr>"
        using pending unfolding Data
        by (auto simp: handlePythonResponse_def tryParseResponse_cases
            split: option.splits json.splits)
      with ended pending show ?thesis by simp
    next
      case True
      then obtain v where v: "parse js (responseBuffer s @ chunk) = Some v" "v \<noteq> JNull"
        by blast
      have "step js e s = finished (hpromise cur) (Resolved v)
              (s\<lparr>responseBuffer := [],
                 timers := filter (\<lambda>t. fst t \<noteq> timeoutHandle cur) (timers s)\<rparr>)"
        using pending v unfolding Data
        by (simp add: handlePythonResponse_def tryParseResponse_cases split: json.splits)
      then have "settled (step js e s) = settled s @ [(hpromise cur, Resolved v)]"
        using fresh by (simp add: finished_def)
      with Data v(1) show ?thesis by blast
    qed
  next
    case (Fire h)
    show ?thesis
    proof (cases "map_of (timers s) h")
      case None
      then have "step js e s = s" unfolding Fire by (simp add: fireTimer_def)
      with ended pending show ?thesis by simp
    next
      case (Some cb)
      then have mem: "(h, cb) \<in> set (timers s)" by (rule map_of_SomeD)
      show ?thesis
      proof (cases cb)
        case Drain
        have "currentRequestHandler (step js e s) = Some cur"
          using Some pending busy unfolding Fire Drain
          by (simp add: fireTimer_def processNextRequest_cases Let_def split: list.splits)
        with ended show ?thesis by simp
      next
        case (Deadline p d c)
        with mem ts have "currentRequestHandler s = Some \<lparr>hpromise = p, timeoutHandle = h\<rparr>"
          unfolding inv_timers_def by blast
        with pending have cur: "cur = \<lparr>hpromise = p, timeoutHandle = h\<rparr>" by simp
        have armed: "map_of (timers s) (timeoutHandle cur) = Some (Deadline (hpromise cur) d c)"
          using Some Deadline cur by simp
        have eq: "step js e s = fireTimer (stringify js) (timeoutHandle cur) s"
          unfolding Fire using cur by simp
        have "settled (step js e s) =
                settled s @ [(hpromise cur, Rejected (CommandTimeoutError d c))]"
          unfolding eq by (simp add: fireTimer_deadline [OF inv pending armed])
        moreover have "e = Fire (timeoutHandle cur)" using Fire cur by simp
        ultimately show ?thesis by blast
      qed
    qed
  next
    case (Spawn pid)
    with ended pending show ?thesis by (simp add: start_def)
  next
    case Exit
    with ended pending show ?thesis by (simp add: onExit_def)
  next
    case Stop
    with ended pending show ?thesis by (simp add: stop_def split: option.splits)
  qed
qed

lemma pending_deadline_rejects:
  assumes inv: "broker_inv s" and pending: "currentRequestHandler s = Some cur"
  shows "hpromise cur \<notin> fst ` set (settled s) \<and>
         (\<exists>d c. map_of (timers s) (timeoutHandle cur) = Some (Deadline (hpromise cur) d c) \<and>
            settled (step js (Fire (timeoutHandle cur)) s) =
              settled s @ [(hpromise cur, Rejected (CommandTimeoutError d c))])"
proof -
  from inv have ts: "inv_timers s" and ps: "inv_promises s" by (simp_all add: broker_inv_def)
  have fresh: "hpromise cur \<notin> fst ` set (settled s)"
    using ps pending by (rule pending_unsettled)
  from pending_timer_armed [OF ts pending] obtain d c
    where armed: "map_of (timers s) (timeoutHandle cur) = Some (Deadline (hpromise cur) d c)"
    by blast
  have "settled (step js (Fire (timeoutHandle cur)) s) =
          settled s @ [(hpromise cur, Rejected (CommandTimeoutError d c))]"
    by (simp add: fireTimer_deadline [OF inv pending armed])
  with fresh armed show ?thesis by blast
qed

text \<open>
  The \<^verbatim>\<open>catch\<close> of \<open>processNextRequest\<close>: the request is dequeued and its promise rejected,
  the busy flag is reset and a drain is scheduled; the buffer and the armed timers stay.
\<close>

lemma drain_error_frame:
  assumes "requestQueue s = e # rest" and "\<not> processingRequest s"
    and "f (request e) = Inl x"
  shows "responseBuffer (processNextRequest f s) = responseBuffer s \<and>
         timers (processNextRequest f s) = timers s @ [(nextTimer s, Drain)] \<and>
         requestQueue (processNextRequest f s) = rest \<and>
         \<not> processingRequest (processNextRequest f s) \<and>
         currentRequestHandler (processNextRequest f s) = None \<and>
         settled (processNextRequest f s) =
           settled s @ (if promise e \<in> fst ` set (settled s) then []
                        else [(promise e, Rejected (Thrown x))])"
  using assms by (simp add: processNextRequest_cases finished_def)

text \<open>
  A drain with no process handle: the request is dequeued and becomes the pending call with
  its deadline armed, but no line is written and no promise is settled.
\<close>

lemma drain_without_handle:
  assumes "pythonProcess s = None" and "requestQueue s = e # rest"
    and "\<not> processingRequest s" and "f (request e) = Inr str"
  shows "stdinWritten (processNextRequest f s) = stdinWritten s \<and>
         settled (processNextRequest f s) = settled s \<and>
         requestQueue (processNextRequest f s) = rest \<and>
         processingRequest (processNextRequest f s) \<and>
         currentRequestHandler (processNextRequest f s) =
           Some \<lparr>hpromise = promise e, timeoutHandle = nextTimer s\<rparr>"
  using assms by (simp add: processNextRequest_cases sent_def)

subsection \<open>Concrete runs\<close>

lemma example_one_pending:
  "run example_js [Spawn 7, Submit ''get_board_info'' True] constructed =
     \<lparr> pythonProcess = Some 7, requestQueue = [], processingRequest = True,
       responseBuffer = [], currentRequestHandler = Some \<lparr>hpromise = 0, timeoutHandle = 0\<rparr>,
       timers = [(0, Deadline 0 30000 ''get_board_info'')], nextTimer = 1, nextPromise = 1,
       settled = [], stdinWritten = [(7, ''get_board_info'' @ [CHR 0x0A])], killed = [] \<rparr>"
  by (simp add: run_def example_js_def start_def callKicadScript_cases processNextRequest_cases
      sent_def constructed_def commandTimeout_def longRunningCommands_def)

lemma example_two_submitted:
  "run example_js [Spawn 7, Submit ''get_board_info'' True, Submit ''run_drc'' True] constructed =
     \<lparr> pythonProcess = Some 7,
       requestQueue = [\<lparr>request = \<lparr>command = ''run_drc'', params = True, timeout = 600000\<rparr>,
                        promise = 1\<rparr>],
       processingRequest = True,
       responseBuffer = [], currentRequestHandler = Some \<lparr>hpromise = 0, timeoutHandle = 0\<rparr>,
       timers = [(0, Deadline 0 30000 ''get_board_info'')], nextTimer = 1, nextPromise = 2,
       settled = [], stdinWritten = [(7, ''get_board_info'' @ [CHR 0x0A])], killed = [] \<rparr>"
  by (simp add: run_def example_js_def start_def callKicadScript_cases processNextRequest_cases
      sent_def constructed_def commandTimeout_def longRunningCommands_def)

lemma example_run_drc:
  "timers (run example_js [Spawn 1, Submit ''run_drc'' True, Submit ''get_board_info'' True]
             constructed) = [(0, Deadline 0 600000 ''run_drc'')] \<and>
   map (\<lambda>e. (command (request e), timeout (request e)))
     (requestQueue (run example_js [Spawn 1, Submit ''run_drc'' True, Submit ''get_board_info'' True]
             constructed)) = [(''get_board_info'', 30000)]"
  by (simp add: run_def example_js_def start_def callKicadScript_cases processNextRequest_cases
      sent_def constructed_def commandTimeout_def longRunningCommands_def)

lemma example_exit_partial:
  "run example_js [Data ''{'']
     (onExit (run example_js [Spawn 7, Submit ''get_board_info'' True] constructed)) =
     \<lparr> pythonProcess = None, requestQueue = [], processingRequest = True,
       responseBuffer = ''{'', currentRequestHandler = Some \<lparr>hpromise = 0, timeoutHandle = 0\<rparr>,
       timers = [(0, Deadline 0 30000 ''get_board_info'')], nextTimer = 1, nextPromise = 1,
       settled = [], stdinWritten = [(7, ''get_board_info'' @ [CHR 0x0A])], killed = [] \<rparr>"
  unfolding example_one_pending
  by (simp add: run_def onExit_def handlePythonResponse_def tryParseResponse_cases example_js_def)

section \<open>Claims\<close>

text \<open>
  C1. The child is spawned and stays alive. First, calls of \<open>callKicadScript\<close>, chunks of
  stdout and timers follow in any order; the call number \<open>i\<close> returns promise \<open>i\<close>. In every
  state reached, the promises settled so far are \<open>0, 1, \<dots>\<close> in this order, the pending call
  (there is one exactly when the busy flag is set) is the next promise, and the queue holds
  the promises after it in order; the number of lines written to the child is at most the
  number of settled promises plus the pending one, so a request is written only when all
  requests before it are settled. Second, when \<open>N\<close> calls are made at once, each request
  serialises and the child answers each request as soon as it is written, all \<open>N\<close> promises
  are resolved, in the order of the calls, and the \<open>N\<close> requests are written in that order.
\<close>

theorem submission_order:
  "(list_all keepsChild evs \<longrightarrow>
      map fst (settled (run js evs (start pid constructed))) =
        [0..<length (settled (run js evs (start pid constructed)))] \<and>
      pendingIds (run js evs (start pid constructed)) =
        (if processingRequest (run js evs (start pid constructed))
         then [length (settled (run js evs (start pid constructed)))] else []) \<and>
      map promise (requestQueue (run js evs (start pid constructed))) =
        [length (settled (run js evs (start pid constructed))) +
         length (pendingIds (run js evs (start pid constructed)))..<
         nextPromise (run js evs (start pid constructed))] \<and>
      nextPromise (run js evs (start pid constructed)) = length (filter isSubmit evs) \<and>
      length (stdinWritten (run js evs (start pid constructed))) \<le>
        length (settled (run js evs (start pid constructed))) +
        length (pendingIds (run js evs (start pid constructed)))) \<and>
   ((\<forall>(cmd, ps) \<in> set reqs. \<exists>str.
        stringify js \<lparr>command = cmd, params = ps, timeout = commandTimeout cmd\<rparr> = Inr str) \<and>
    parse js doc = Some v \<and> v \<noteq> JNull \<longrightarrow>
      settled (run js (echoSchedule reqs doc) (start pid constructed)) =
        map (\<lambda>i. (i, Resolved v)) [0..<length reqs] \<and>
      stdinWritten (run js (echoSchedule reqs doc) (start pid constructed)) =
        map (\<lambda>(cmd, ps). (pid, projr (stringify js
               \<lparr>command = cmd, params = ps, timeout = commandTimeout cmd\<rparr>) @ [CHR 0x0A])) reqs)"
  using ordered_settlement [of evs js pid] echo_resolves_all [of reqs js doc v pid]
  by blast

theorem submission_order_witness:
  "list_all keepsChild
     (echoSchedule [(''get_board_info'', True), (''run_drc'', True)] ''{}'' :: bool event list) \<and>
   parse example_js ''{}'' = Some (JObject []) \<and>
   stringify example_js \<lparr>command = ''get_board_info'', params = True, timeout = 30000\<rparr> =
     Inr ''get_board_info'' \<and>
   stringify example_js \<lparr>command = ''run_drc'', params = True, timeout = 600000\<rparr> =
     Inr ''run_drc'' \<and>
   settled (run example_js (echoSchedule [(''get_board_info'', True), (''run_drc'', True)] ''{}'')
              (start 7 constructed)) =
     [(0, Resolved (JObject [])), (1, Resolved (JObject []))] \<and>
   stdinWritten (run example_js
              (echoSchedule [(''get_board_info'', True), (''run_drc'', True)] ''{}'')
              (start 7 constructed)) =
     [(7, ''get_board_info'' @ [CHR 0x0A]), (7, ''run_drc'' @ [CHR 0x0A])] \<and>
   map fst (settled (run example_js
              (echoSchedule [(''get_board_info'', True), (''run_drc'', True)] ''{}'')
              (start 7 constructed))) =
     [0..<length (settled (run example_js
              (echoSchedule [(''get_board_info'', True), (''run_drc'', True)] ''{}'')
              (start 7 constructed)))]"
proof -
  let ?reqs = "[(''get_board_info'', True), (''run_drc'', True)]"
  let ?evs = "echoSchedule ?reqs ''{}'' :: bool event list"
  have keeps: "list_all keepsChild ?evs"
    by (simp add: echoSchedule_def numeral_2_eq_2)
  have s1: "stringify example_js \<lparr>command = ''get_board_info'', params = True, timeout = 30000\<rparr> =
              Inr ''get_board_info''"
    and s2: "stringify example_js \<lparr>command = ''run_drc'', params = True, timeout = 600000\<rparr> =
              Inr ''run_drc''"
    and d: "parse example_js ''{}'' = Some (JObject [])"
    by (simp_all add: example_js_def)
  have ser: "\<forall>(cmd, ps) \<in> set ?reqs. \<exists>str.
        stringify example_js \<lparr>command = cmd, params = ps, timeout = commandTimeout cmd\<rparr> = Inr str"
    by (simp add: example_js_def)
  have nn: "JObject [] \<noteq> (JNull :: nat json)" by simp
  note res = submission_order [of ?evs example_js 7 ?reqs "''{}''" "JObject []"]
  from res keeps have a: "map fst (settled (run example_js ?evs (start 7 constructed))) =
        [0..<length (settled (run example_js ?evs (start 7 constructed)))]"
    by blast
  from res ser d nn have b: "settled (run example_js ?evs (start 7 constructed)) =
        map (\<lambda>i. (i, Resolved (JObject []))) [0..<length ?reqs]"
    and c: "stdinWritten (run example_js ?evs (start 7 constructed)) =
        map (\<lambda>(cmd, ps). (7, projr (stringify example_js
               \<lparr>command = cmd, params = ps, timeout = commandTimeout cmd\<rparr>) @ [CHR 0x0A])) ?reqs"
    by blast+
  have b': "settled (run example_js ?evs (start 7 constructed)) =
              [(0, Resolved (JObject [])), (1, Resolved (JObject []))]"
    unfolding b by (simp add: upt_rec)
  have c': "stdinWritten (run example_js ?evs (start 7 constructed)) =
              [(7, ''get_board_info'' @ [CHR 0x0A]), (7, ''run_drc'' @ [CHR 0x0A])]"
    unfolding c by (simp add: example_js_def)
  from keeps d s1 s2 a b' c' show ?thesis by blast
qed

text \<open>
  C2. A call of \<open>callKicadScript\<close> made when there is no process handle rejects the returned
  promise within the call, with the error "Python process for KiCAD scripting is not
  running". The request is not appended to the queue, nothing is written to a child's
  stdin, and the queue, the buffer, the busy flag, the current handler and the timers are
  what they were.
\<close>

theorem submit_without_child:
  assumes "broker_inv s" and "pythonProcess s = None"
  shows "fst (callKicadScript f cmd ps s) = nextPromise s \<and>
         settled (snd (callKicadScript f cmd ps s)) =
           settled s @ [(nextPromise s, Rejected NotRunningError)] \<and>
         requestQueue (snd (callKicadScript f cmd ps s)) = requestQueue s \<and>
         stdinWritten (snd (callKicadScript f cmd ps s)) = stdinWritten s \<and>
         processingRequest (snd (callKicadScript f cmd ps s)) = processingRequest s \<and>
         currentRequestHandler (snd (callKicadScript f cmd ps s)) = currentRequestHandler s \<and>
         responseBuffer (snd (callKicadScript f cmd ps s)) = responseBuffer s \<and>
         timers (snd (callKicadScript f cmd ps s)) = timers s \<and>
         nextTimer (snd (callKicadScript f cmd ps s)) = nextTimer s \<and>
         pythonProcess (snd (callKicadScript f cmd ps s)) = None \<and>
         killed (snd (callKicadScript f cmd ps s)) = killed s"
proof -
  from assms(1) have "nextPromise s \<notin> fst ` set (settled s)"
    unfolding broker_inv_def inv_promises_def promiseIds_def by auto
  then show ?thesis using assms(2) by (simp add: callKicadScript_cases)
qed

theorem submit_without_child_witness:
  "broker_inv (constructed :: (unit, nat, unit) server) \<and>
   pythonProcess (constructed :: (unit, nat, unit) server) = None \<and>
   settled (snd (callKicadScript (\<lambda>r. Inr ''{}'') ''get_board_info'' ()
                  (constructed :: (unit, nat, unit) server))) =
     [(0, Rejected NotRunningError)] \<and>
   requestQueue (snd (callKicadScript (\<lambda>r. Inr ''{}'') ''get_board_info'' ()
                  (constructed :: (unit, nat, unit) server))) = [] \<and>
   stdinWritten (snd (callKicadScript (\<lambda>r. Inr ''{}'') ''get_board_info'' ()
                  (constructed :: (unit, nat, unit) server))) = []"
proof -
  have inv: "broker_inv (constructed :: (unit, nat, unit) server)"
    by (rule broker_inv_constructed)
  have dead: "pythonProcess (constructed :: (unit, nat, unit) server) = None"
    by (simp add: constructed_def)
  from submit_without_child [OF inv dead, of "\<lambda>r. Inr ''{}''" "''get_board_info''" "()"]
  show ?thesis using inv dead by (simp add: constructed_def)
qed

text \<open>
  C3. The timeout of a request depends on the command alone: 600000 for \<open>run_drc\<close>,
  \<open>export_gerber\<close>, \<open>export_pdf\<close> and \<open>export_3d\<close>, and 30000 for every other command. In
  every state the server reaches from the constructor, each queued request carries that
  timeout and each armed deadline has that duration. A call with \<open>run_drc\<close> on an idle
  broker arms a deadline of 600000, and one with \<open>get_board_info\<close> a deadline of 30000.
\<close>

theorem timeout_policy:
  "(\<forall>e \<in> set (requestQueue (run js evs constructed)).
      timeout (request e) =
        (if command (request e) \<in> {''run_drc'', ''export_gerber'', ''export_pdf'', ''export_3d''}
         then 600000 else 30000)) \<and>
   (\<forall>h p d c. (h, Deadline p d c) \<in> set (timers (run js evs constructed)) \<longrightarrow>
      d = (if c \<in> {''run_drc'', ''export_gerber'', ''export_pdf'', ''export_3d''}
           then 600000 else 30000)) \<and>
   (\<forall>s pid ps str.
      pythonProcess s = Some pid \<and> \<not> processingRequest s \<and> requestQueue s = [] \<and>
      stringify js \<lparr>command = ''run_drc'', params = ps, timeout = 600000\<rparr> = Inr str \<longrightarrow>
      timers (step js (Submit ''run_drc'' ps) s) =
        timers s @ [(nextTimer s, Deadline (nextPromise s) 600000 ''run_drc'')]) \<and>
   (\<forall>s pid ps str.
      pythonProcess s = Some pid \<and> \<not> processingRequest s \<and> requestQueue s = [] \<and>
      stringify js \<lparr>command = ''get_board_info'', params = ps, timeout = 30000\<rparr> = Inr str \<longrightarrow>
      timers (step js (Submit ''get_board_info'' ps) s) =
        timers s @ [(nextTimer s, Deadline (nextPromise s) 30000 ''get_board_info'')])"
proof -
  have inv: "inv_timeouts (run js evs constructed)"
    using inv_timeouts_constructed by (rule inv_timeouts_run)
  have 1: "\<forall>e \<in> set (requestQueue (run js evs constructed)).
      timeout (request e) =
        (if command (request e) \<in> {''run_drc'', ''export_gerber'', ''export_pdf'', ''export_3d''}
         then 600000 else 30000)"
    using inv unfolding inv_timeouts_def commandTimeout_def longRunningCommands_def by simp
  have 2: "\<forall>h p d c. (h, Deadline p d c) \<in> set (timers (run js evs constructed)) \<longrightarrow>
      d = (if c \<in> {''run_drc'', ''export_gerber'', ''export_pdf'', ''export_3d''}
           then 600000 else 30000)"
    using inv unfolding inv_timeouts_def commandTimeout_def longRunningCommands_def by simp
  have 3: "\<forall>s pid ps str.
      pythonProcess s = Some pid \<and> \<not> processingRequest s \<and> requestQueue s = [] \<and>
      stringify js \<lparr>command = ''run_drc'', params = ps, timeout = 600000\<rparr> = Inr str \<longrightarrow>
      timers (step js (Submit ''run_drc'' ps) s) =
        timers s @ [(nextTimer s, Deadline (nextPromise s) 600000 ''run_drc'')]"
    by (simp add: callKicadScript_cases processNextRequest_cases sent_def commandTimeout_def
        longRunningCommands_def)
  have 4: "\<forall>s pid ps str.
      pythonProcess s = Some pid \<and> \<not> processingRequest s \<and> requestQueue s = [] \<and>
      stringify js \<lparr>command = ''get_board_info'', params = ps, timeout = 30000\<rparr> = Inr str \<longrightarrow>
      timers (step js (Submit ''get_board_info'' ps) s) =
        timers s @ [(nextTimer s, Deadline (nextPromise s) 30000 ''get_board_info'')]"
    by (simp add: callKicadScript_cases processNextRequest_cases sent_def commandTimeout_def
        longRunningCommands_def)
  from 1 2 3 4 show ?thesis by blast
qed

theorem timeout_policy_witness:
  "(0, Deadline 0 600000 ''run_drc'') \<in>
     set (timers (run example_js [Spawn 1, Submit ''run_drc'' True, Submit ''get_board_info'' True]
             constructed)) \<and>
   map (\<lambda>e. (command (request e), timeout (request e)))
     (requestQueue (run example_js [Spawn 1, Submit ''run_drc'' True, Submit ''get_board_info'' True]
             constructed)) = [(''get_board_info'', 30000)] \<and>
   (600000 :: nat) = (if ''run_drc'' \<in> {''run_drc'', ''export_gerber'', ''export_pdf'', ''export_3d''}
           then 600000 else 30000) \<and>
   pythonProcess (start 1 constructed :: (bool, nat, unit) server) = Some 1 \<and>
   \<not> processingRequest (start 1 constructed :: (bool, nat, unit) server) \<and>
   requestQueue (start 1 constructed :: (bool, nat, unit) server) = [] \<and>
   stringify example_js \<lparr>command = ''get_board_info'', params = True, timeout = 30000\<rparr> =
     Inr ''get_board_info'' \<and>
   timers (step example_js (Submit ''get_board_info'' True) (start 1 constructed)) =
     [(0, Deadline 0 30000 ''get_board_info'')]"
proof -
  have prem: "pythonProcess (start 1 constructed :: (bool, nat, unit) server) = Some 1 \<and>
    \<not> processingRequest (start 1 constructed :: (bool, nat, unit) server) \<and>
    requestQueue (start 1 constructed :: (bool, nat, unit) server) = [] \<and>
    stringify example_js \<lparr>command = ''get_board_info'', params = True, timeout = 30000\<rparr> =
      Inr ''get_board_info''"
    by (simp add: start_def constructed_def example_js_def)
  from timeout_policy [of example_js
         "[Spawn 1, Submit ''run_drc'' True, Submit ''get_board_info'' True]"]
  have "timers (step example_js (Submit ''get_board_info'' True) (start 1 constructed)) =
          timers (start 1 constructed :: (bool, nat, unit) server) @
            [(nextTimer (start 1 constructed :: (bool, nat, unit) server),
              Deadline (nextPromise (start 1 constructed :: (bool, nat, unit) server)) 30000
                ''get_board_info'')]"
    using prem by blast
  then show ?thesis using prem example_run_drc
    by (simp add: start_def constructed_def)
qed

text \<open>
  C4. A response arrives in chunks while a call is pending and the buffer is empty; the
  decoded value is not \<open>null\<close>, the last chunk is not empty, and no proper prefix of the whole
  text parses. Then after every strict prefix of the chunks no promise is settled, the call
  is still pending with its timer armed, and the buffer holds all the text received so far;
  after the last chunk the promise of the pending call is resolved with the decoded value,
  the buffer is empty, the handler is cleared, its timer is disarmed and a drain is
  scheduled.
\<close>

theorem chunked_response:
  assumes inv: "broker_inv s"
    and pending: "currentRequestHandler s = Some cur"
    and empty: "responseBuffer s = []"
    and final: "chunks \<noteq> [] \<and> last chunks \<noteq> []"
    and incomplete: "\<forall>k < length (concat chunks). prs (take k (concat chunks)) = None"
    and complete: "prs (concat chunks) = Some v \<and> v \<noteq> JNull"
  shows "(\<forall>n < length chunks.
            settled (feed prs (take n chunks) s) = settled s \<and>
            currentRequestHandler (feed prs (take n chunks) s) = Some cur \<and>
            processingRequest (feed prs (take n chunks) s) = processingRequest s \<and>
            timers (feed prs (take n chunks) s) = timers s \<and>
            responseBuffer (feed prs (take n chunks) s) = concat (take n chunks)) \<and>
         settled (feed prs chunks s) = settled s @ [(hpromise cur, Resolved v)] \<and>
         responseBuffer (feed prs chunks s) = [] \<and>
         currentRequestHandler (feed prs chunks s) = None \<and>
         \<not> processingRequest (feed prs chunks s) \<and>
         timers (feed prs chunks s) =
           filter (\<lambda>t. fst t \<noteq> timeoutHandle cur) (timers s) @ [(nextTimer s, Drain)]"
proof -
  have fails: "prs (concat (take m chunks)) = None" if "m < length chunks" for m
    using concat_take_proper [OF that, of] final incomplete by metis
  have before: "feed prs (take n chunks) s = s\<lparr>responseBuffer := concat (take n chunks)\<rparr>"
    if n: "n < length chunks" for n
  proof -
    have "\<forall>m. 0 < m \<and> m \<le> length (take n chunks) \<longrightarrow>
            prs (responseBuffer s @ concat (take m (take n chunks))) = None"
    proof (intro allI impI)
      fix m assume m: "0 < m \<and> m \<le> length (take n chunks)"
      then have "m \<le> n" "m < length chunks" using n by simp_all
      then show "prs (responseBuffer s @ concat (take m (take n chunks))) = None"
        using fails [of m] by (simp add: empty min_def)
    qed
    from feed_incomplete [OF pending this] show ?thesis by (simp add: empty)
  qed
  have part1: "\<forall>n < length chunks.
            settled (feed prs (take n chunks) s) = settled s \<and>
            currentRequestHandler (feed prs (take n chunks) s) = Some cur \<and>
            processingRequest (feed prs (take n chunks) s) = processingRequest s \<and>
            timers (feed prs (take n chunks) s) = timers s \<and>
            responseBuffer (feed prs (take n chunks) s) = concat (take n chunks)"
    using before pending by simp
  from final have split: "chunks = butlast chunks @ [last chunks]" by simp
  have "length chunks - 1 < length chunks" using final by simp
  from before [OF this]
  have bl: "feed prs (butlast chunks) s = s\<lparr>responseBuffer := concat (butlast chunks)\<rparr>"
    by (simp add: butlast_conv_take)
  have "concat (butlast chunks) @ last chunks = concat chunks"
    by (metis split concat_append concat.simps append_Nil2)
  then have fin: "feed prs chunks s =
      finished (hpromise cur) (Resolved v)
        (s\<lparr>responseBuffer := [],
           timers := filter (\<lambda>t. fst t \<noteq> timeoutHandle cur) (timers s)\<rparr>)"
    using feed_snoc [of prs "butlast chunks" "last chunks" s] split pending complete
    by (simp add: bl handlePythonResponse_def tryParseResponse_cases split: json.splits)
  from inv have "inv_promises s" by (simp add: broker_inv_def)
  then have fresh: "hpromise cur \<notin> fst ` set (settled s)"
    using pending by (rule pending_unsettled)
  have part2: "settled (feed prs chunks s) = settled s @ [(hpromise cur, Resolved v)] \<and>
         responseBuffer (feed prs chunks s) = [] \<and>
         currentRequestHandler (feed prs chunks s) = None \<and>
         \<not> processingRequest (feed prs chunks s) \<and>
         timers (feed prs chunks s) =
           filter (\<lambda>t. fst t \<noteq> timeoutHandle cur) (timers s) @ [(nextTimer s, Drain)]"
    using fresh by (simp add: fin finished_def)
  from part1 part2 show ?thesis by blast
qed

theorem chunked_response_witness:
  "broker_inv (run example_js [Spawn 7, Submit ''get_board_info'' True] constructed) \<and>
   currentRequestHandler (run example_js [Spawn 7, Submit ''get_board_info'' True] constructed) =
     Some \<lparr>hpromise = 0, timeoutHandle = 0\<rparr> \<and>
   responseBuffer (run example_js [Spawn 7, Submit ''get_board_info'' True] constructed) = [] \<and>
   last [''{'', '' '', ''}''] \<noteq> [] \<and>
   parse example_js (take 0 (concat [''{'', '' '', ''}''])) = None \<and>
   parse example_js (take 1 (concat [''{'', '' '', ''}''])) = None \<and>
   parse example_js (take 2 (concat [''{'', '' '', ''}''])) = None \<and>
   parse example_js (concat [''{'', '' '', ''}'']) = Some (JObject []) \<and>
   settled (feed (parse example_js) (take 2 [''{'', '' '', ''}''])
     (run example_js [Spawn 7, Submit ''get_board_info'' True] constructed)) = [] \<and>
   settled (feed (parse example_js) [''{'', '' '', ''}'']
     (run example_js [Spawn 7, Submit ''get_board_info'' True] constructed)) =
     [(0, Resolved (JObject []))]"
proof -
  let ?s = "run example_js [Spawn 7, Submit ''get_board_info'' True] constructed"
  let ?chunks = "[''{'', '' '', ''}'']"
  have inv: "broker_inv ?s"
    using broker_inv_constructed by (rule broker_inv_run)
  have pending: "currentRequestHandler ?s = Some \<lparr>hpromise = 0, timeoutHandle = 0\<rparr>"
    by (simp add: example_one_pending)
  have empty: "responseBuffer ?s = []"
    by (simp add: example_one_pending)
  have final: "?chunks \<noteq> [] \<and> last ?chunks \<noteq> []" by simp
  have incomplete: "\<forall>k < length (concat ?chunks). parse example_js (take k (concat ?chunks)) = None"
    by (simp add: example_js_def less_Suc_eq numeral_3_eq_3 all_conj_distrib)
  have complete: "parse example_js (concat ?chunks) = Some (JObject []) \<and> JObject [] \<noteq> (JNull :: nat json)"
    by (simp add: example_js_def)
  note res = chunked_response [OF inv pending empty final incomplete complete]
  from res have
    "\<forall>n < length ?chunks. settled (feed (parse example_js) (take n ?chunks) ?s) = settled ?s"
    by blast
  moreover have "(2::nat) < length ?chunks" by simp
  ultimately have a: "settled (feed (parse example_js) (take 2 ?chunks) ?s) = settled ?s"
    by blast
  from res have b: "settled (feed (parse example_js) ?chunks ?s) =
      settled ?s @ [(hpromise \<lparr>hpromise = 0, timeoutHandle = 0\<rparr>, Resolved (JObject []))]"
    by blast
  have c: "settled ?s = []" by (simp add: example_one_pending)
  have d: "parse example_js (take 0 (concat ?chunks)) = None \<and>
           parse example_js (take 1 (concat ?chunks)) = None \<and>
           parse example_js (take 2 (concat ?chunks)) = None"
    by (simp add: example_js_def)
  show ?thesis
    using inv pending empty final complete a b c d by simp
qed

text \<open>
  C5. When the deadline timer of the pending call fires, the promise of that call is rejected
  with the command-timeout error, the buffer and the handler are cleared, the busy flag is
  reset, nothing is dequeued or written in that turn, and a drain is scheduled. When a
  request is queued, the child exists and the request serialises, the scheduled drain
  dequeues that request, writes its line to the child and makes it the pending call.
\<close>

theorem deadline_fires:
  assumes inv: "broker_inv s" and pending: "currentRequestHandler s = Some cur"
  shows "\<exists>d c.
     map_of (timers s) (timeoutHandle cur) = Some (Deadline (hpromise cur) d c) \<and>
     settled (fireTimer f (timeoutHandle cur) s) =
       settled s @ [(hpromise cur, Rejected (CommandTimeoutError d c))] \<and>
     responseBuffer (fireTimer f (timeoutHandle cur) s) = [] \<and>
     currentRequestHandler (fireTimer f (timeoutHandle cur) s) = None \<and>
     \<not> processingRequest (fireTimer f (timeoutHandle cur) s) \<and>
     requestQueue (fireTimer f (timeoutHandle cur) s) = requestQueue s \<and>
     stdinWritten (fireTimer f (timeoutHandle cur) s) = stdinWritten s \<and>
     timers (fireTimer f (timeoutHandle cur) s) =
       filter (\<lambda>t. fst t \<noteq> timeoutHandle cur) (timers s) @ [(nextTimer s, Drain)] \<and>
     (\<forall>e rest pid str.
        requestQueue s = e # rest \<and> pythonProcess s = Some pid \<and> f (request e) = Inr str \<longrightarrow>
        stdinWritten (fireTimer f (nextTimer s) (fireTimer f (timeoutHandle cur) s)) =
          stdinWritten s @ [(pid, str @ [CHR 0x0A])] \<and>
        requestQueue (fireTimer f (nextTimer s) (fireTimer f (timeoutHandle cur) s)) = rest \<and>
        processingRequest (fireTimer f (nextTimer s) (fireTimer f (timeoutHandle cur) s)) \<and>
        currentRequestHandler (fireTimer f (nextTimer s) (fireTimer f (timeoutHandle cur) s)) =
          Some \<lparr>hpromise = promise e, timeoutHandle = Suc (nextTimer s)\<rparr> \<and>
        settled (fireTimer f (nextTimer s) (fireTimer f (timeoutHandle cur) s)) =
          settled s @ [(hpromise cur, Rejected (CommandTimeoutError d c))])"
proof -
  from inv have ts: "inv_timers s" by (simp add: broker_inv_def)
  from pending_timer_armed [OF ts pending] obtain d c
    where armed: "map_of (timers s) (timeoutHandle cur) = Some (Deadline (hpromise cur) d c)"
    by blast
  let ?s1 = "fireTimer f (timeoutHandle cur) s"
  note s1 = fireTimer_deadline [OF inv pending armed, of f]
  have first: "settled ?s1 = settled s @ [(hpromise cur, Rejected (CommandTimeoutError d c))] \<and>
     responseBuffer ?s1 = [] \<and> currentRequestHandler ?s1 = None \<and> \<not> processingRequest ?s1 \<and>
     requestQueue ?s1 = requestQueue s \<and> stdinWritten ?s1 = stdinWritten s \<and>
     timers ?s1 = filter (\<lambda>t. fst t \<noteq> timeoutHandle cur) (timers s) @ [(nextTimer s, Drain)]"
    by (simp add: s1)
  have second: "stdinWritten (fireTimer f (nextTimer s) ?s1) =
          stdinWritten s @ [(pid, str @ [CHR 0x0A])] \<and>
        requestQueue (fireTimer f (nextTimer s) ?s1) = rest \<and>
        processingRequest (fireTimer f (nextTimer s) ?s1) \<and>
        currentRequestHandler (fireTimer f (nextTimer s) ?s1) =
          Some \<lparr>hpromise = promise e, timeoutHandle = Suc (nextTimer s)\<rparr> \<and>
        settled (fireTimer f (nextTimer s) ?s1) =
          settled s @ [(hpromise cur, Rejected (CommandTimeoutError d c))]"
    if q: "requestQueue s = e # rest \<and> pythonProcess s = Some pid \<and> f (request e) = Inr str"
    for e rest pid str
  proof -
    from first have tm: "timers ?s1 =
        filter (\<lambda>t. fst t \<noteq> timeoutHandle cur) (timers s) @ [(nextTimer s, Drain)]"
      by blast
    from ts have "\<forall>t \<in> set (timers s). fst t < nextTimer s" by (simp add: inv_timers_def)
    then have "map_of (timers ?s1) (nextTimer s) = Some Drain"
      unfolding tm by (rule fireTimer_fresh_drain)
    then have "fireTimer f (nextTimer s) ?s1 =
        processNextRequest f (?s1\<lparr>timers := filter (\<lambda>t. fst t \<noteq> nextTimer s) (timers ?s1)\<rparr>)"
      by (simp add: fireTimer_def)
    also have "\<dots> = sent e rest str (?s1\<lparr>timers := filter (\<lambda>t. fst t \<noteq> nextTimer s) (timers ?s1)\<rparr>)"
      using q first by (simp add: processNextRequest_cases)
    finally show ?thesis using q first by (simp add: sent_def s1)
  qed
  from armed first second show ?thesis by blast
qed

theorem deadline_fires_witness:
  "broker_inv (run example_js [Spawn 7, Submit ''get_board_info'' True, Submit ''run_drc'' True]
      constructed) \<and>
   currentRequestHandler
     (run example_js [Spawn 7, Submit ''get_board_info'' True, Submit ''run_drc'' True]
        constructed) = Some \<lparr>hpromise = 0, timeoutHandle = 0\<rparr> \<and>
   settled (fireTimer (stringify example_js) 0
     (run example_js [Spawn 7, Submit ''get_board_info'' True, Submit ''run_drc'' True]
        constructed)) = [(0, Rejected (CommandTimeoutError 30000 ''get_board_info''))] \<and>
   stdinWritten (fireTimer (stringify example_js) 1 (fireTimer (stringify example_js) 0
     (run example_js [Spawn 7, Submit ''get_board_info'' True, Submit ''run_drc'' True]
        constructed))) =
     [(7, ''get_board_info'' @ [CHR 0x0A]), (7, ''run_drc'' @ [CHR 0x0A])]"
proof -
  let ?s = "run example_js [Spawn 7, Submit ''get_board_info'' True, Submit ''run_drc'' True]
      constructed"
  let ?f = "stringify example_js"
  let ?e = "\<lparr>request = \<lparr>command = ''run_drc'', params = True, timeout = 600000\<rparr>,
             promise = 1\<rparr> :: bool queue_entry"
  have inv: "broker_inv ?s"
    using broker_inv_constructed by (rule broker_inv_run)
  have pending: "currentRequestHandler ?s = Some \<lparr>hpromise = 0, timeoutHandle = 0\<rparr>"
    by (simp add: example_two_submitted)
  have "requestQueue ?s = ?e # [] \<and> pythonProcess ?s = Some 7"
    by (simp add: example_two_submitted)
  moreover have "?f (request ?e) = Inr ''run_drc''"
    by (simp add: example_js_def)
  ultimately have
    q: "requestQueue ?s = ?e # [] \<and> pythonProcess ?s = Some 7 \<and> ?f (request ?e) = Inr ''run_drc''"
    by blast
  have tm: "timers ?s = [(0, Deadline 0 30000 ''get_board_info'')]"
    and nt: "nextTimer ?s = 1" and st: "settled ?s = []"
    and wr: "stdinWritten ?s = [(7, ''get_board_info'' @ [CHR 0x0A])]"
    by (simp_all add: example_two_submitted)
  from deadline_fires [OF inv pending, of ?f] obtain d c where
    armed: "map_of (timers ?s) 0 = Some (Deadline 0 d c)" and
    rej: "settled (fireTimer ?f 0 ?s) = settled ?s @ [(0, Rejected (CommandTimeoutError d c))]" and
    nxt: "\<forall>e rest pid str.
        requestQueue ?s = e # rest \<and> pythonProcess ?s = Some pid \<and> ?f (request e) = Inr str \<longrightarrow>
        stdinWritten (fireTimer ?f (nextTimer ?s) (fireTimer ?f 0 ?s)) =
          stdinWritten ?s @ [(pid, str @ [CHR 0x0A])]"
    by (simp only: handler.simps) blast
  from armed have dc: "d = 30000 \<and> c = ''get_board_info''"
    unfolding tm by simp
  from nxt q have "stdinWritten (fireTimer ?f (nextTimer ?s) (fireTimer ?f 0 ?s)) =
          stdinWritten ?s @ [(7, ''run_drc'' @ [CHR 0x0A])]"
    by blast
  then have "stdinWritten (fireTimer ?f 1 (fireTimer ?f 0 ?s)) =
     [(7, ''get_board_info'' @ [CHR 0x0A]), (7, ''run_drc'' @ [CHR 0x0A])]"
    unfolding nt wr by simp
  moreover from rej dc have "settled (fireTimer ?f 0 ?s) =
     [(0, Rejected (CommandTimeoutError 30000 ''get_board_info''))]"
    unfolding st by simp
  ultimately show ?thesis using inv pending by blast
qed


text \<open>
  C7, as amended. When the child exits while a call is pending, the exit listener only
  clears the process handle: the exit settles no promise, and the queue, the buffer, the busy
  flag, the handler and the armed timers are what they were. Whatever events follow the
  exit, as long as the call is pending its promise is unsettled and its deadline is armed,
  and the deadline, when it fires then, rejects the promise with the command-timeout error.
  The call ends only by a chunk of stdout that still arrives and completes a document, which
  resolves the promise, or by its deadline.
\<close>

theorem exit_while_pending:
  assumes inv: "broker_inv s" and pending: "currentRequestHandler s = Some cur"
  shows "pythonProcess (onExit s) = None \<and>
         settled (onExit s) = settled s \<and>
         requestQueue (onExit s) = requestQueue s \<and>
         responseBuffer (onExit s) = responseBuffer s \<and>
         processingRequest (onExit s) = processingRequest s \<and>
         currentRequestHandler (onExit s) = Some cur \<and>
         timers (onExit s) = timers s \<and>
         stdinWritten (onExit s) = stdinWritten s \<and>
         killed (onExit s) = killed s \<and>
         (\<forall>evs. currentRequestHandler (run js evs (onExit s)) = Some cur \<longrightarrow>
            hpromise cur \<notin> fst ` set (settled (run js evs (onExit s))) \<and>
            (\<exists>d c. map_of (timers (run js evs (onExit s))) (timeoutHandle cur) =
                      Some (Deadline (hpromise cur) d c) \<and>
                   settled (step js (Fire (timeoutHandle cur)) (run js evs (onExit s))) =
                     settled (run js evs (onExit s)) @
                       [(hpromise cur, Rejected (CommandTimeoutError d c))])) \<and>
         (\<forall>evs e. currentRequestHandler (run js evs (onExit s)) = Some cur \<and>
                  currentRequestHandler (step js e (run js evs (onExit s))) \<noteq> Some cur \<longrightarrow>
            (\<exists>chunk v. e = Data chunk \<and>
               parse js (responseBuffer (run js evs (onExit s)) @ chunk) = Some v \<and>
               settled (step js e (run js evs (onExit s))) =
                 settled (run js evs (onExit s)) @ [(hpromise cur, Resolved v)]) \<or>
            (\<exists>d c. e = Fire (timeoutHandle cur) \<and>
               settled (step js e (run js evs (onExit s))) =
                 settled (run js evs (onExit s)) @
                   [(hpromise cur, Rejected (CommandTimeoutError d c))]))"
proof -
  have frame: "pythonProcess (onExit s) = None \<and>
         settled (onExit s) = settled s \<and>
         requestQueue (onExit s) = requestQueue s \<and>
         responseBuffer (onExit s) = responseBuffer s \<and>
         processingRequest (onExit s) = processingRequest s \<and>
         currentRequestHandler (onExit s) = Some cur \<and>
         timers (onExit s) = timers s \<and>
         stdinWritten (onExit s) = stdinWritten s \<and>
         killed (onExit s) = killed s"
    using pending by (simp add: onExit_def)
  have inv': "broker_inv (run js evs (onExit s))" for evs
    using inv by (simp add: broker_inv_onExit broker_inv_run)
  have later: "\<forall>evs. currentRequestHandler (run js evs (onExit s)) = Some cur \<longrightarrow>
            hpromise cur \<notin> fst ` set (settled (run js evs (onExit s))) \<and>
            (\<exists>d c. map_of (timers (run js evs (onExit s))) (timeoutHandle cur) =
                      Some (Deadline (hpromise cur) d c) \<and>
                   settled (step js (Fire (timeoutHandle cur)) (run js evs (onExit s))) =
                     settled (run js evs (onExit s)) @
                       [(hpromise cur, Rejected (CommandTimeoutError d c))])"
    using pending_deadline_rejects [OF inv'] by blast
  have ends: "\<forall>evs e. currentRequestHandler (run js evs (onExit s)) = Some cur \<and>
                  currentRequestHandler (step js e (run js evs (onExit s))) \<noteq> Some cur \<longrightarrow>
            (\<exists>chunk v. e = Data chunk \<and>
               parse js (responseBuffer (run js evs (onExit s)) @ chunk) = Some v \<and>
               settled (step js e (run js evs (onExit s))) =
                 settled (run js evs (onExit s)) @ [(hpromise cur, Resolved v)]) \<or>
            (\<exists>d c. e = Fire (timeoutHandle cur) \<and>
               settled (step js e (run js evs (onExit s))) =
                 settled (run js evs (onExit s)) @
                   [(hpromise cur, Rejected (CommandTimeoutError d c))])"
    using pending_call_outcome [OF inv'] by blast
  from frame later ends show ?thesis by blast
qed

theorem exit_while_pending_witness:
  "broker_inv (run example_js [Spawn 7, Submit ''get_board_info'' True] constructed) \<and>
   currentRequestHandler (run example_js [Spawn 7, Submit ''get_board_info'' True] constructed) =
     Some \<lparr>hpromise = 0, timeoutHandle = 0\<rparr> \<and>
   pythonProcess (onExit (run example_js [Spawn 7, Submit ''get_board_info'' True] constructed)) =
     None \<and>
   settled (onExit (run example_js [Spawn 7, Submit ''get_board_info'' True] constructed)) = [] \<and>
   currentRequestHandler (run example_js [Data ''{'']
     (onExit (run example_js [Spawn 7, Submit ''get_board_info'' True] constructed))) =
     Some \<lparr>hpromise = 0, timeoutHandle = 0\<rparr> \<and>
   settled (step example_js (Fire 0) (run example_js [Data ''{'']
     (onExit (run example_js [Spawn 7, Submit ''get_board_info'' True] constructed)))) =
     [(0, Rejected (CommandTimeoutError 30000 ''get_board_info''))] \<and>
   currentRequestHandler (step example_js (Data ''}'') (run example_js [Data ''{'']
     (onExit (run example_js [Spawn 7, Submit ''get_board_info'' True] constructed)))) = None \<and>
   settled (step example_js (Data ''}'') (run example_js [Data ''{'']
     (onExit (run example_js [Spawn 7, Submit ''get_board_info'' True] constructed)))) =
     [(0, Resolved (JObject []))]"
proof -
  let ?s = "run example_js [Spawn 7, Submit ''get_board_info'' True] constructed"
  let ?t = "run example_js [Data ''{''] (onExit ?s)"
  let ?cur = "\<lparr>hpromise = 0, timeoutHandle = 0\<rparr>"
  have inv: "broker_inv ?s"
    using broker_inv_constructed by (rule broker_inv_run)
  have pending: "currentRequestHandler ?s = Some ?cur"
    by (simp add: example_one_pending)
  have st: "settled ?s = []" by (simp add: example_one_pending)
  have still: "currentRequestHandler ?t = Some ?cur" and tm: "timers ?t = [(0, Deadline 0 30000 ''get_board_info'')]"
    and stt: "settled ?t = []" and buf: "responseBuffer ?t = ''{''"
    by (simp_all add: example_exit_partial)
  have gone: "currentRequestHandler (step example_js (Data ''}'') ?t) = None"
    unfolding example_exit_partial
    by (simp add: handlePythonResponse_def tryParseResponse_cases example_js_def finished_def)
  note res = exit_while_pending [OF inv pending, of example_js]
  from res have a: "pythonProcess (onExit ?s) = None" and b: "settled (onExit ?s) = settled ?s"
    by blast+
  from res still obtain d c where
    armed: "map_of (timers ?t) (timeoutHandle ?cur) = Some (Deadline (hpromise ?cur) d c)" and
    rej: "settled (step example_js (Fire (timeoutHandle ?cur)) ?t) =
            settled ?t @ [(hpromise ?cur, Rejected (CommandTimeoutError d c))]"
    by blast
  from armed have dc: "d = 30000 \<and> c = ''get_board_info''" unfolding tm by simp
  from rej dc have f: "settled (step example_js (Fire 0) ?t) =
     [(0, Rejected (CommandTimeoutError 30000 ''get_board_info''))]"
    unfolding stt by simp
  from gone have ended: "currentRequestHandler (step example_js (Data ''}'') ?t) \<noteq> Some ?cur"
    by simp
  from res still ended have
    "(\<exists>chunk v. Data ''}'' = (Data chunk :: bool event) \<and>
        parse example_js (responseBuffer ?t @ chunk) = Some v \<and>
        settled (step example_js (Data ''}'') ?t) = settled ?t @ [(hpromise ?cur, Resolved v)]) \<or>
     (\<exists>d c. (Data ''}'' :: bool event) = Fire (timeoutHandle ?cur) \<and>
        settled (step example_js (Data ''}'') ?t) =
          settled ?t @ [(hpromise ?cur, Rejected (CommandTimeoutError d c))])"
    by blast
  then obtain v where "parse example_js (responseBuffer ?t @ ''}'') = Some v"
    and "settled (step example_js (Data ''}'') ?t) = settled ?t @ [(hpromise ?cur, Resolved v)]"
    by auto
  then have g: "settled (step example_js (Data ''}'') ?t) = [(0, Resolved (JObject []))]"
    unfolding buf stt by (simp add: example_js_def)
  from inv pending a b st still f gone g show ?thesis by simp
qed

text \<open>
  The pending call of C7 is not left unresolved for ever: in this run the child exits while
  promise 0 is pending, no promise is settled by the exit, and the deadline that fires next
  rejects promise 0.
\<close>

theorem exit_while_pending_counterexample:
  "currentRequestHandler
     (run example_js [Spawn 7, Submit ''get_board_info'' True, Exit] constructed) =
     Some \<lparr>hpromise = 0, timeoutHandle = 0\<rparr> \<and>
   settled (run example_js [Spawn 7, Submit ''get_board_info'' True, Exit] constructed) = [] \<and>
   settled (run example_js [Spawn 7, Submit ''get_board_info'' True, Exit, Fire 0] constructed) =
     [(0, Rejected (CommandTimeoutError 30000 ''get_board_info''))]"
  by (simp add: run_def example_js_def start_def onExit_def callKicadScript_cases
      processNextRequest_cases sent_def constructed_def commandTimeout_def
      longRunningCommands_def fireTimer_def onTimeout_cases finished_def)

text \<open>
  C8. \<open>stop\<close> sends \<open>kill()\<close> to the child, if there is one, and clears the process handle.
  It settles no promise and leaves the queue, the buffer, the busy flag, the current handler
  and the armed timers as they were.
\<close>

theorem stop_only_kills:
  "pythonProcess (stop s) = None \<and>
   killed (stop s) = killed s @ (case pythonProcess s of None \<Rightarrow> [] | Some pid \<Rightarrow> [pid]) \<and>
   settled (stop s) = settled s \<and>
   requestQueue (stop s) = requestQueue s \<and>
   responseBuffer (stop s) = responseBuffer s \<and>
   processingRequest (stop s) = processingRequest s \<and>
   currentRequestHandler (stop s) = currentRequestHandler s \<and>
   timers (stop s) = timers s \<and>
   nextTimer (stop s) = nextTimer s \<and>
   nextPromise (stop s) = nextPromise s \<and>
   stdinWritten (stop s) = stdinWritten s"
  by (simp add: stop_def split: option.splits)

text \<open>
  C9. A drain that runs when there is no process handle writes nothing and raises no error:
  the dequeued request becomes the pending call with its deadline armed, and its promise
  stays unsettled. Here the child exits while the first of two requests is pending; the
  first times out, and the drain scheduled by the timeout dequeues the second.
\<close>

theorem drain_without_child:
  "pythonProcess (run example_js
       [Spawn 7, Submit ''get_board_info'' True, Submit ''run_drc'' True, Exit, Fire 0]
       constructed) = None \<and>
   map promise (requestQueue (run example_js
       [Spawn 7, Submit ''get_board_info'' True, Submit ''run_drc'' True, Exit, Fire 0]
       constructed)) = [1] \<and>
   timers (run example_js
       [Spawn 7, Submit ''get_board_info'' True, Submit ''run_drc'' True, Exit, Fire 0]
       constructed) = [(1, Drain)] \<and>
   stdinWritten (run example_js
       [Spawn 7, Submit ''get_board_info'' True, Submit ''run_drc'' True, Exit, Fire 0, Fire 1]
       constructed) = [(7, ''get_board_info'' @ [CHR 0x0A])] \<and>
   settled (run example_js
       [Spawn 7, Submit ''get_board_info'' True, Submit ''run_drc'' True, Exit, Fire 0, Fire 1]
       constructed) = [(0, Rejected (CommandTimeoutError 30000 ''get_board_info''))] \<and>
   currentRequestHandler (run example_js
       [Spawn 7, Submit ''get_board_info'' True, Submit ''run_drc'' True, Exit, Fire 0, Fire 1]
       constructed) = Some \<lparr>hpromise = 1, timeoutHandle = 2\<rparr> \<and>
   timers (run example_js
       [Spawn 7, Submit ''get_board_info'' True, Submit ''run_drc'' True, Exit, Fire 0, Fire 1]
       constructed) = [(2, Deadline 1 600000 ''run_drc'')]"
  by (simp add: run_def example_js_def start_def onExit_def callKicadScript_cases
      processNextRequest_cases sent_def constructed_def commandTimeout_def
      longRunningCommands_def fireTimer_def onTimeout_cases finished_def)

text \<open>
  C10. A chunk of stdout that arrives while there is no current handler settles no promise
  and changes neither the queue, the busy flag, the handler nor the timers. The buffer, with
  the chunk appended, is emptied when it holds a character that is not white space, and is
  kept otherwise.
\<close>

theorem stray_output_settles_nothing:
  assumes "currentRequestHandler s = None"
  shows "settled (handlePythonResponse prs chunk s) = settled s \<and>
         requestQueue (handlePythonResponse prs chunk s) = requestQueue s \<and>
         processingRequest (handlePythonResponse prs chunk s) = processingRequest s \<and>
         currentRequestHandler (handlePythonResponse prs chunk s) = None \<and>
         timers (handlePythonResponse prs chunk s) = timers s \<and>
         nextTimer (handlePythonResponse prs chunk s) = nextTimer s \<and>
         nextPromise (handlePythonResponse prs chunk s) = nextPromise s \<and>
         stdinWritten (handlePythonResponse prs chunk s) = stdinWritten s \<and>
         pythonProcess (handlePythonResponse prs chunk s) = pythonProcess s \<and>
         killed (handlePythonResponse prs chunk s) = killed s \<and>
         responseBuffer (handlePythonResponse prs chunk s) =
           (if \<exists>c \<in> set (responseBuffer s @ chunk). \<not> isWhiteSpace c then []
            else responseBuffer s @ chunk)"
  using assms
  by (simp add: handlePythonResponse_def tryParseResponse_cases trim_nonempty del: set_append)

theorem stray_output_settles_nothing_witness:
  "currentRequestHandler (constructed :: (unit, nat, unit) server) = None \<and>
   settled (handlePythonResponse (\<lambda>b. Some (JBool True)) ''{\"success\": true}''
              (constructed :: (unit, nat, unit) server)) = [] \<and>
   responseBuffer (handlePythonResponse (\<lambda>b. Some (JBool True)) ''{\"success\": true}''
              (constructed :: (unit, nat, unit) server)) = []"
proof -
  have idle: "currentRequestHandler (constructed :: (unit, nat, unit) server) = None"
    by (simp add: constructed_def)
  from stray_output_settles_nothing [OF idle, of "\<lambda>b. Some (JBool True)" "''{\"success\": true}''"]
  show ?thesis using idle by (simp add: constructed_def isWhiteSpace_def)
qed


end
